theory Spec2Isabelle
  imports Complex_Main "HOL-Library.Sublist"
begin

chapter \<open>Face recognition front end: geometry, live loop, batch pipeline, roster\<close>

text \<open>
  A shallow embedding of the orchestration code of the front end: the scale and overlay
  computation of \<open>MediaDisplay\<close>, the frame capture and the polling loop of \<open>CameraView\<close>
  with its recording controls, the worker pool of \<open>BatchAnalyzer\<close>, and the roster
  operations of \<open>App\<close>. The recognition service is a collaborator whose calls resolve with
  a result or reject; asynchronous code is split at its \<open>await\<close>s, and a run of the program
  is a sequence of events, each handled to completion as by the JavaScript event loop.
\<close>

section \<open>Data model (src/types.ts)\<close>

text \<open>
  The TypeScript interfaces become records. Several interfaces of the program share field
  names (\<open>name\<close>, \<open>id\<close>, \<open>width\<close>, \<open>height\<close>, \<open>x\<close>, \<open>y\<close>); a record field is
  a constant of the theory, so each field carries a short prefix of its interface.
  A JavaScript number is a binary64 value; it is modelled as the rational number it
  denotes, and every division and multiplication of the source is followed by the rounding
  of binary64 arithmetic (section on binary64 below).
\<close>

record BoundingBox =
  box_x :: rat
  box_y :: rat
  box_width :: rat
  box_height :: rat

record DetectedFace =
  box :: BoundingBox
  face_name :: string
  gender :: "string option"
  confidence :: rat

record KnownPerson =
  kp_id :: string
  kp_name :: string
  kp_image :: string

record RecognitionOptions =
  recognizeGender :: bool
  countPeople :: bool

text \<open>The value a recognition call resolves with: \<open>{ faces, personCount }\<close>.\<close>

record RecognitionResult =
  faces :: "DetectedFace list"
  res_personCount :: int

section \<open>Binary64 arithmetic\<close>

text \<open>
  The arithmetic of JavaScript numbers, on the finite values: the exact result of an
  operation is rounded to the nearest binary64 value, ties going to the value with an even
  significand. A non-zero \<open>x\<close> with \<open>2^e \<le> |x| < 2^(e+1)\<close> lies in the binade \<open>e\<close>;
  neighbouring binary64 values there are \<open>2^(e-52)\<close> apart, and \<open>2^(-1074)\<close> apart below
  \<open>2^(-1022)\<close> (the subnormal range). Results of magnitude \<open>2^1024\<close> or more, which
  binary64 turns into \<open>Infinity\<close>, and \<open>NaN\<close> are not represented: they do not arise
  from the sizes and fractions the geometry code works on.
\<close>

fun bit_length :: "nat \<Rightarrow> nat" where
  "bit_length n = (if n = 0 then 0 else Suc (bit_length (n div 2)))"

declare bit_length.simps [simp del]

text \<open>The binade of a positive rational.\<close>

definition binade :: "rat \<Rightarrow> int" where
  "binade x =
     (if 1 \<le> x then int (bit_length (nat \<lfloor>x\<rfloor>)) - 1
      else - int (bit_length (nat (\<lceil>1 / x\<rceil> - 1))))"

definition round_half_even :: "rat \<Rightarrow> int" where
  "round_half_even m =
     (let f = \<lfloor>m\<rfloor>; r = m - of_int f
      in if r < 1 / 2 then f
         else if 1 / 2 < r then f + 1
         else if even f then f else f + 1)"

text \<open>The distance between neighbouring binary64 values around \<open>x\<close>.\<close>

definition ulp :: "rat \<Rightarrow> rat" where
  "ulp x = 2 powi (max (binade \<bar>x\<bar>) (- 1022) - 52)"

definition round64 :: "rat \<Rightarrow> rat" where
  "round64 x = (if x = 0 then 0 else of_int (round_half_even (x / ulp x)) * ulp x)"

text \<open>The operators \<open>/\<close> and \<open>*\<close> of the source, and the bound on one rounding.\<close>

definition js_div :: "rat \<Rightarrow> rat \<Rightarrow> rat" where
  "js_div a b = round64 (a / b)"

definition js_mul :: "rat \<Rightarrow> rat \<Rightarrow> rat" where
  "js_mul a b = round64 (a * b)"

definition unit_roundoff :: rat where
  "unit_roundoff = 1 / 2 ^ 53"

section \<open>Geometry Mapper (src/components/MediaDisplay.tsx)\<close>

text \<open>
  \<open>calculateScale\<close> reads the container through \<open>containerRef.current\<close> (\<open>None\<close> while the
  element is not mounted) and calls \<open>setScale\<close> only under its guard; otherwise the
  \<open>scale\<close> state keeps its previous value (initially 1). The function returns the value of
  the \<open>scale\<close> state after the call.
\<close>

definition calculateScale :: "(rat \<times> rat) option \<Rightarrow> rat \<Rightarrow> rat \<Rightarrow> rat \<Rightarrow> rat" where
  "calculateScale containerRef naturalWidth naturalHeight scale =
     (case containerRef of
        None \<Rightarrow> scale
      | Some (clientWidth, clientHeight) \<Rightarrow>
          if naturalWidth > 0 \<and> naturalHeight > 0 then
            (let scaleX = js_div clientWidth naturalWidth;
                 scaleY = js_div clientHeight naturalHeight
             in min scaleX scaleY)
          else scale)"

definition scaledWidth :: "rat \<Rightarrow> rat \<Rightarrow> rat" where
  "scaledWidth naturalWidth scale = js_mul naturalWidth scale"

definition scaledHeight :: "rat \<Rightarrow> rat \<Rightarrow> rat" where
  "scaledHeight naturalHeight scale = js_mul naturalHeight scale"

text \<open>
  The overlay of a face is an absolutely positioned \<open>div\<close> whose style gives its four
  lengths as percentages (\<open>left: `${x * 100}%`\<close> and so on) of the overlay container, a
  \<open>div\<close> of \<open>scaledWidth\<close> by \<open>scaledHeight\<close> pixels. \<open>face_style\<close> is the style the
  component writes, each percentage a binary64 product; \<open>css_percent\<close> is the resolution
  of a percentage against the containing block as CSS defines it; \<open>overlay_rect\<close> is the
  resulting rectangle in pixels.
\<close>

record css_percentages =
  left_pct :: rat
  top_pct :: rat
  width_pct :: rat
  height_pct :: rat

record screen_rect =
  rect_left :: rat
  rect_top :: rat
  rect_width :: rat
  rect_height :: rat

definition face_style :: "DetectedFace \<Rightarrow> css_percentages" where
  "face_style face =
     \<lparr> left_pct = js_mul (box_x (box face)) 100,
       top_pct = js_mul (box_y (box face)) 100,
       width_pct = js_mul (box_width (box face)) 100,
       height_pct = js_mul (box_height (box face)) 100 \<rparr>"

definition css_percent :: "rat \<Rightarrow> rat \<Rightarrow> rat" where
  "css_percent p containing = p / 100 * containing"

definition overlay_rect :: "DetectedFace \<Rightarrow> rat \<Rightarrow> rat \<Rightarrow> screen_rect" where
  "overlay_rect face sw sh =
     \<lparr> rect_left = css_percent (left_pct (face_style face)) sw,
       rect_top = css_percent (top_pct (face_style face)) sh,
       rect_width = css_percent (width_pct (face_style face)) sw,
       rect_height = css_percent (height_pct (face_style face)) sh \<rparr>"

text \<open>The rectangle lies inside the overlay container \<open>[0, sw] \<times> [0, sh]\<close>.\<close>

definition rect_within :: "screen_rect \<Rightarrow> rat \<Rightarrow> rat \<Rightarrow> bool" where
  "rect_within r sw sh \<longleftrightarrow>
     0 \<le> rect_left r \<and> rect_left r + rect_width r \<le> sw \<and>
     0 \<le> rect_top r \<and> rect_top r + rect_height r \<le> sh"

definition box_in_unit :: "BoundingBox \<Rightarrow> bool" where
  "box_in_unit b \<longleftrightarrow>
     0 \<le> box_x b \<and> box_x b \<le> 1 \<and> 0 \<le> box_y b \<and> box_y b \<le> 1 \<and>
     0 \<le> box_width b \<and> box_width b \<le> 1 \<and> 0 \<le> box_height b \<and> box_height b \<le> 1"


section \<open>Frame capture (CameraView, \<open>captureFrame\<close>)\<close>

text \<open>
  The part of an \<open>HTMLVideoElement\<close> the component reads. \<open>frame_jpeg\<close> stands for the
  base64 JPEG encoding of the frame the element currently shows.
\<close>

record video_element =
  videoWidth :: nat
  videoHeight :: nat
  paused :: bool
  ended :: bool
  frame_jpeg :: string

text \<open>
  \<open>canvas.toDataURL('image/jpeg')\<close> is a browser primitive: for a canvas whose bitmap has
  no pixels (a dimension is zero) it returns the string \<open>data:,\<close>; otherwise the data URL
  of the encoded bitmap.
\<close>

definition toDataURL :: "nat \<Rightarrow> nat \<Rightarrow> string \<Rightarrow> string" where
  "toDataURL canvas_width canvas_height jpeg =
     (if canvas_width = 0 \<or> canvas_height = 0 then ''data:,''
      else ''data:image/jpeg;base64,'' @ jpeg)"

text \<open>
  \<open>captureFrame\<close>: \<open>videoRef\<close> is \<open>videoRef.current\<close> (\<open>None\<close> for \<open>null\<close>), \<open>context2d\<close>
  tells whether \<open>canvas.getContext('2d')\<close> returns a context. The result \<open>None\<close> is the
  \<open>null\<close> the function returns; it has no other exit than its three \<open>return\<close>s.
\<close>

definition captureFrame :: "video_element option \<Rightarrow> bool \<Rightarrow> string option" where
  "captureFrame videoRef context2d =
     (case videoRef of
        None \<Rightarrow> None
      | Some video \<Rightarrow>
          if \<not> context2d then None
          else Some (toDataURL (videoWidth video) (videoHeight video) (frame_jpeg video)))"

text \<open>JavaScript truthiness of a \<open>string | null\<close>: \<open>null\<close> and the empty string are falsy.\<close>

definition js_truthy :: "string option \<Rightarrow> bool" where
  "js_truthy r = (case r of None \<Rightarrow> False | Some str \<Rightarrow> str \<noteq> [])"

section \<open>Live camera view (CameraView)\<close>

text \<open>
  The component's React state and refs (\<open>stream\<close> tells whether \<open>useCamera\<close> has delivered
  a stream), together with the part of the browser it talks to:
  the window's active interval timers, the recognition calls that have not settled yet
  (\<open>in_flight\<close>, one entry per pending promise), and two logs that only record what
  happened: the frames handed to \<open>detectAndRecognizeFaces\<close> (\<open>invocations\<close>) and the number
  of \<open>captureFrame\<close> calls made by the loop (\<open>captures\<close>).
\<close>

datatype recorder_state = Inactive | Recording

datatype outcome = Resolved RecognitionResult | Rejected "string option"

record camera_state =
  detectedFaces :: "DetectedFace list"
  personCount :: int
  error :: "string option"
  isAnalyzing :: bool
  isRecording :: bool
  analysisIntervalRef :: "nat option"
  isProcessingFrame :: bool
  mediaRecorderRef :: "recorder_state option"
  stream :: bool
  videoRef :: "video_element option"
  context2d :: bool
  timers :: "nat list"
  next_timer :: nat
  in_flight :: "string list"
  invocations :: "string list"
  captures :: nat

text \<open>
  After the first render: nothing displayed, both modes off, no timer. \<open>setInterval\<close>
  hands out identifiers greater than zero, so a stored identifier is truthy.
\<close>

definition camera_init :: camera_state where
  "camera_init =
     \<lparr> detectedFaces = [], personCount = 0, error = None,
       isAnalyzing = False, isRecording = False,
       analysisIntervalRef = None, isProcessingFrame = False,
       mediaRecorderRef = None, stream = False, videoRef = None, context2d = True,
       timers = [], next_timer = 1, in_flight = [], invocations = [], captures = 0 \<rparr>"

definition ref_truthy :: "nat option \<Rightarrow> bool" where
  "ref_truthy r = (case r of None \<Rightarrow> False | Some i \<Rightarrow> i \<noteq> 0)"

definition clearInterval :: "nat \<Rightarrow> camera_state \<Rightarrow> camera_state" where
  "clearInterval i s = s\<lparr>timers := removeAll i (timers s)\<rparr>"

text \<open>
  \<open>analyzeRealtimeFrame\<close> up to its \<open>await\<close>: the guard, the capture, the flag, the call.
\<close>

definition analyzeRealtimeFrame_start :: "camera_state \<Rightarrow> camera_state" where
  "analyzeRealtimeFrame_start s =
     (if isProcessingFrame s
         \<or> (case videoRef s of None \<Rightarrow> True | Some video \<Rightarrow> paused video \<or> ended video)
      then s
      else
        (let frameDataUrl = captureFrame (videoRef s) (context2d s);
             s1 = s\<lparr>captures := captures s + 1\<rparr>
         in case frameDataUrl of
              None \<Rightarrow> s1
            | Some frame \<Rightarrow>
                if \<not> js_truthy frameDataUrl then s1
                else s1\<lparr>isProcessingFrame := True,
                        invocations := invocations s1 @ [frame],
                        in_flight := in_flight s1 @ [frame]\<rparr>))"

text \<open>
  \<open>analyzeRealtimeFrame\<close> after its \<open>await\<close>: the \<open>try\<close> body on a result, the \<open>catch\<close> on a
  rejection (whose message is present when the thrown value is an \<open>Error\<close>), then \<open>finally\<close>.
\<close>

definition analyzeRealtimeFrame_resume :: "outcome \<Rightarrow> camera_state \<Rightarrow> camera_state" where
  "analyzeRealtimeFrame_resume oc s =
     (let s1 =
        (case oc of
           Resolved res \<Rightarrow>
             if ref_truthy (analysisIntervalRef s)
             then s\<lparr>detectedFaces := faces res, personCount := res_personCount res\<rparr>
             else s
         | Rejected msg \<Rightarrow>
             s\<lparr>error := Some (case msg of Some m \<Rightarrow> m
                                | None \<Rightarrow> ''An analysis error occurred.'')\<rparr>)
      in s1\<lparr>isProcessingFrame := False\<rparr>)"

text \<open>
  The effect on \<open>[isAnalyzing, analyzeRealtimeFrame]\<close>: when a dependency changes React runs
  the cleanup of the previous run, then the body.
\<close>

definition effect_cleanup :: "camera_state \<Rightarrow> camera_state" where
  "effect_cleanup s =
     (case analysisIntervalRef s of
        None \<Rightarrow> s
      | Some i \<Rightarrow> if i \<noteq> 0 then clearInterval i s else s)"

definition effect_body :: "camera_state \<Rightarrow> camera_state" where
  "effect_body s =
     (if isAnalyzing s then
        s\<lparr>timers := timers s @ [next_timer s],
          next_timer := next_timer s + 1,
          analysisIntervalRef := Some (next_timer s)\<rparr>
      else
        (case analysisIntervalRef s of
           None \<Rightarrow> s
         | Some i \<Rightarrow>
             if i \<noteq> 0 then (clearInterval i s)\<lparr>analysisIntervalRef := None\<rparr> else s))"

definition analysis_effect :: "camera_state \<Rightarrow> camera_state" where
  "analysis_effect s = effect_body (effect_cleanup s)"

definition handleToggleAnalysis :: "camera_state \<Rightarrow> camera_state" where
  "handleToggleAnalysis s =
     (let wasAnalyzing = isAnalyzing s;
          s1 = s\<lparr>isAnalyzing := \<not> isAnalyzing s\<rparr>
      in if wasAnalyzing then s1\<lparr>detectedFaces := [], personCount := 0\<rparr> else s1)"

text \<open>
  The recording handlers, as far as they touch the state above: the recorder is taken to be
  created and started without an exception, and the collected chunks and the download are
  left out.
\<close>

definition handleStartRecording :: "camera_state \<Rightarrow> camera_state" where
  "handleStartRecording s =
     (if stream s then s\<lparr>mediaRecorderRef := Some Recording, isRecording := True\<rparr> else s)"

definition handleStopRecording :: "camera_state \<Rightarrow> camera_state" where
  "handleStopRecording s =
     (if mediaRecorderRef s = Some Recording
      then s\<lparr>mediaRecorderRef := Some Inactive, isRecording := False\<rparr>
      else s)"

text \<open>The \<open>disabled\<close> attributes of the Record and Analyze buttons.\<close>

definition record_disabled :: "camera_state \<Rightarrow> bool" where
  "record_disabled s \<longleftrightarrow> \<not> stream s \<or> isAnalyzing s"

definition analyze_disabled :: "camera_state \<Rightarrow> bool" where
  "analyze_disabled s \<longleftrightarrow> \<not> stream s \<or> isRecording s"

text \<open>
  What can happen to the mounted component, one event at a time (the event loop runs each
  handler, the re-render and its effects to completion before the next event):
  the camera stream arrives; the browser changes the video element or the availability of
  a 2D context; the props change, which re-creates \<open>analyzeRealtimeFrame\<close> and re-runs the
  effect; a click on Analyze or on Record (a disabled button delivers no click); the
  recorder stops by itself; an interval fires (only a timer that is still active); a
  pending recognition call settles.
\<close>

datatype event =
    StreamAcquired
  | Browser "video_element option" bool
  | PropsChanged
  | ClickAnalyze
  | ClickRecord
  | RecorderStopped
  | Tick nat
  | Settle nat outcome

definition is_tick :: "event \<Rightarrow> bool" where
  "is_tick e = (case e of Tick i \<Rightarrow> True | _ \<Rightarrow> False)"

definition camera_step :: "camera_state \<Rightarrow> event \<Rightarrow> camera_state" where
  "camera_step s e =
     (case e of
        StreamAcquired \<Rightarrow> s\<lparr>stream := True\<rparr>
      | Browser v c \<Rightarrow> s\<lparr>videoRef := v, context2d := c\<rparr>
      | PropsChanged \<Rightarrow> analysis_effect s
      | ClickAnalyze \<Rightarrow>
          if analyze_disabled s then s else analysis_effect (handleToggleAnalysis s)
      | ClickRecord \<Rightarrow>
          if record_disabled s then s
          else if isRecording s then handleStopRecording s
          else handleStartRecording s
      | RecorderStopped \<Rightarrow>
          (case mediaRecorderRef s of
             None \<Rightarrow> s
           | Some r \<Rightarrow> s\<lparr>mediaRecorderRef := Some Inactive\<rparr>)
      | Tick i \<Rightarrow> if i \<in> set (timers s) then analyzeRealtimeFrame_start s else s
      | Settle k oc \<Rightarrow>
          if k < length (in_flight s)
          then analyzeRealtimeFrame_resume oc
                 (s\<lparr>in_flight := take k (in_flight s) @ drop (Suc k) (in_flight s)\<rparr>)
          else s)"

definition camera_run :: "camera_state \<Rightarrow> event list \<Rightarrow> camera_state" where
  "camera_run s es = foldl camera_step s es"

section \<open>Numbers in template literals\<close>

text \<open>
  \<open>`${n}`\<close> for a non-negative integer below \<open>10^21\<close> is its decimal numeral.
  \<open>Date.now()\<close> and \<open>File.lastModified\<close> are millisecond counts since the epoch, taken
  as natural numbers.
\<close>

definition digit_char :: "nat \<Rightarrow> char" where
  "digit_char d = ''0123456789'' ! d"

fun string_of_nat :: "nat \<Rightarrow> string" where
  "string_of_nat n =
     (if n < 10 then [digit_char n]
      else string_of_nat (n div 10) @ [digit_char (n mod 10)])"

declare string_of_nat.simps [simp del]

text \<open>The value of a decimal numeral, used to show that distinct numbers print differently.\<close>

definition digit_val :: "char \<Rightarrow> nat" where
  "digit_val c = of_char c - 48"

definition nat_of_string :: "string \<Rightarrow> nat" where
  "nat_of_string str = foldl (\<lambda>a c. 10 * a + digit_val c) 0 str"

section \<open>Batch Analyzer (src/components/BatchAnalyzer.tsx)\<close>

datatype status = Pending | Processing | Done | Error

record File =
  file_name :: string
  lastModified :: nat

record NaturalSize =
  ns_width :: nat
  ns_height :: nat

record ImageFileState =
  fs_id :: string
  fs_file :: File
  url :: string
  status :: status
  result :: "RecognitionResult option"
  naturalSize :: NaturalSize

definition CONCURRENCY_LIMIT :: nat where
  "CONCURRENCY_LIMIT = 3"

text \<open>
  A worker of \<open>handleAnalyzeBatch\<close> is either suspended at \<open>await process(fileToProcess)\<close>
  or has left its \<open>while\<close> loop.
\<close>

datatype worker = Awaiting ImageFileState | Finished

text \<open>
  The component's state (\<open>imageFiles\<close>, \<open>selectedImageId\<close>, \<open>isBatchLoading\<close>), the
  variables of the current run of \<open>handleAnalyzeBatch\<close> (\<open>queue\<close>, \<open>workers\<close>), and the
  log of the items handed to \<open>detectAndRecognizeFaces\<close> during the run, in call order.
\<close>

record batch_state =
  imageFiles :: "ImageFileState list"
  selectedImageId :: "string option"
  isBatchLoading :: bool
  queue :: "ImageFileState list"
  workers :: "worker list"
  submitted :: "ImageFileState list"

definition batch_init :: batch_state where
  "batch_init =
     \<lparr> imageFiles = [], selectedImageId = None, isBatchLoading = False,
       queue = [], workers = [], submitted = [] \<rparr>"

text \<open>
  \<open>handleFileChange\<close>: \<open>files\<close> is \<open>event.target.files\<close> (\<open>None\<close> for \<open>null\<close>);
  \<open>createObjectURL\<close> is the browser's \<open>URL.createObjectURL\<close>. The \<open>onload\<close> handlers
  it installs run later, as \<open>image_loaded\<close>.
\<close>

definition newFileState :: "(File \<Rightarrow> string) \<Rightarrow> File \<Rightarrow> ImageFileState" where
  "newFileState createObjectURL f =
     \<lparr> fs_id = file_name f @ ''-'' @ string_of_nat (lastModified f),
       fs_file = f,
       url = createObjectURL f,
       status = Pending,
       result = None,
       naturalSize = \<lparr> ns_width = 0, ns_height = 0 \<rparr> \<rparr>"

definition handleFileChange ::
  "(File \<Rightarrow> string) \<Rightarrow> File list option \<Rightarrow> batch_state \<Rightarrow> batch_state" where
  "handleFileChange createObjectURL files s =
     (case files of
        None \<Rightarrow> s
      | Some fs \<Rightarrow>
          if length fs > 0 then
            (let newFiles = map (newFileState createObjectURL) fs
             in s\<lparr>imageFiles := newFiles, selectedImageId := Some (fs_id (newFiles ! 0))\<rparr>)
          else s)"

definition image_loaded :: "string \<Rightarrow> nat \<Rightarrow> nat \<Rightarrow> batch_state \<Rightarrow> batch_state" where
  "image_loaded fid w h s =
     s\<lparr>imageFiles :=
         map (\<lambda>f. if fs_id f = fid
                   then f\<lparr>naturalSize := \<lparr> ns_width = w, ns_height = h \<rparr>\<rparr> else f)
             (imageFiles s)\<rparr>"

text \<open>\<open>selectedImage = imageFiles.find(f => f.id === selectedImageId)\<close>.\<close>

definition selectedImage :: "batch_state \<Rightarrow> ImageFileState option" where
  "selectedImage s = find (\<lambda>f. Some (fs_id f) = selectedImageId s) (imageFiles s)"

text \<open>The three state updates of \<open>process\<close>.\<close>

definition mark_processing :: "string \<Rightarrow> ImageFileState list \<Rightarrow> ImageFileState list" where
  "mark_processing fid prev =
     map (\<lambda>f. if fs_id f = fid then f\<lparr>status := Processing\<rparr> else f) prev"

definition mark_done ::
  "string \<Rightarrow> RecognitionResult \<Rightarrow> ImageFileState list \<Rightarrow> ImageFileState list" where
  "mark_done fid res prev =
     map (\<lambda>f. if fs_id f = fid then f\<lparr>status := Done, result := Some res\<rparr> else f) prev"

definition mark_error :: "string \<Rightarrow> ImageFileState list \<Rightarrow> ImageFileState list" where
  "mark_error fid prev =
     map (\<lambda>f. if fs_id f = fid then f\<lparr>status := Error\<rparr> else f) prev"

text \<open>
  \<open>process\<close> up to its \<open>await\<close> (mark the item, call the collaborator) and after it
  (\<open>try\<close> on a result, \<open>catch\<close> on a rejection).
\<close>

definition process_start :: "ImageFileState \<Rightarrow> batch_state \<Rightarrow> batch_state" where
  "process_start fileState s =
     s\<lparr>imageFiles := mark_processing (fs_id fileState) (imageFiles s),
       submitted := submitted s @ [fileState]\<rparr>"

definition process_finish :: "ImageFileState \<Rightarrow> outcome \<Rightarrow> batch_state \<Rightarrow> batch_state" where
  "process_finish fileState oc s =
     (case oc of
        Resolved res \<Rightarrow> s\<lparr>imageFiles := mark_done (fs_id fileState) res (imageFiles s)\<rparr>
      | Rejected msg \<Rightarrow> s\<lparr>imageFiles := mark_error (fs_id fileState) (imageFiles s)\<rparr>)"

text \<open>
  A worker's loop from its head to the next suspension: with an empty queue it ends,
  otherwise it shifts the first item off the queue and starts \<open>process\<close> on it.
\<close>

definition worker_loop :: "batch_state \<Rightarrow> worker \<times> batch_state" where
  "worker_loop s =
     (case queue s of
        [] \<Rightarrow> (Finished, s)
      | fileToProcess # rest \<Rightarrow>
          (Awaiting fileToProcess, process_start fileToProcess (s\<lparr>queue := rest\<rparr>)))"

definition spawn_worker :: "batch_state \<Rightarrow> batch_state" where
  "spawn_worker s = (case worker_loop s of (w, s') \<Rightarrow> s'\<lparr>workers := workers s' @ [w]\<rparr>)"

definition run_completed :: "batch_state \<Rightarrow> bool" where
  "run_completed s = list_all (\<lambda>w. w = Finished) (workers s)"

text \<open>\<open>await Promise.all(workers); setIsBatchLoading(false)\<close>.\<close>

definition join_workers :: "batch_state \<Rightarrow> batch_state" where
  "join_workers s = (if run_completed s then s\<lparr>isBatchLoading := False\<rparr> else s)"

definition filesToProcess :: "ImageFileState list \<Rightarrow> ImageFileState list" where
  "filesToProcess fs = filter (\<lambda>f. status f = Pending \<or> status f = Error) fs"

text \<open>
  \<open>handleAnalyzeBatch\<close> up to its \<open>await\<close>: the queue is a copy of the filtered list, and the
  \<open>map\<close> over \<open>Array(CONCURRENCY_LIMIT)\<close> starts the workers one after the other, each
  running until its first suspension.
\<close>

definition handleAnalyzeBatch :: "batch_state \<Rightarrow> batch_state" where
  "handleAnalyzeBatch s =
     join_workers
       ((spawn_worker ^^ CONCURRENCY_LIMIT)
          (s\<lparr>isBatchLoading := True,
             queue := filesToProcess (imageFiles s),
             workers := [],
             submitted := []\<rparr>))"

text \<open>
  The call of worker \<open>i\<close> settles: \<open>process\<close> finishes, the worker goes round its loop
  again, and the join is re-examined. Settling a worker that is not waiting is no event.
\<close>

definition deliver :: "batch_state \<Rightarrow> nat \<times> outcome \<Rightarrow> batch_state" where
  "deliver s ev =
     (case ev of (i, oc) \<Rightarrow>
        if i < length (workers s) then
          (case workers s ! i of
             Finished \<Rightarrow> s
           | Awaiting fileState \<Rightarrow>
               (case worker_loop (process_finish fileState oc s) of
                  (w, s') \<Rightarrow> join_workers (s'\<lparr>workers := (workers s')[i := w]\<rparr>)))
        else s)"

text \<open>
  What happens while a run is under way: the call of some worker settles, or one of the
  images created by \<open>handleFileChange\<close> finishes loading.
\<close>

datatype batch_event = CallSettled nat outcome | ImageLoaded string nat nat

definition batch_step :: "batch_state \<Rightarrow> batch_event \<Rightarrow> batch_state" where
  "batch_step s e =
     (case e of
        CallSettled i oc \<Rightarrow> deliver s (i, oc)
      | ImageLoaded fid w h \<Rightarrow> image_loaded fid w h s)"

definition run_batch :: "batch_state \<Rightarrow> batch_event list \<Rightarrow> batch_state" where
  "run_batch s evs = foldl batch_step s evs"

text \<open>The identifiers of the items some worker is waiting for.\<close>

definition awaited :: "worker list \<Rightarrow> ImageFileState list" where
  "awaited ws = concat (map (\<lambda>w. case w of Awaiting f \<Rightarrow> [f] | Finished \<Rightarrow> []) ws)"

section \<open>Roster Manager (src/App.tsx)\<close>

text \<open>
  \<open>localStorage\<close> maps keys to strings; the string written is \<open>JSON.stringify(people)\<close>,
  kept here as the roster under a constructor.
\<close>

datatype json_text = JSON_stringify "KnownPerson list"

record app_state =
  knownPeople :: "KnownPerson list"
  localStorage :: "string \<rightharpoonup> json_text"

definition updateKnownPeople :: "KnownPerson list \<Rightarrow> app_state \<Rightarrow> app_state" where
  "updateKnownPeople people s =
     s\<lparr>knownPeople := people,
       localStorage := (localStorage s)(''knownPeople'' \<mapsto> JSON_stringify people)\<rparr>"

definition person_id :: "nat \<Rightarrow> string" where
  "person_id now = ''person_'' @ string_of_nat now"

text \<open>\<open>now\<close> is the value of \<open>Date.now()\<close> at the call.\<close>

definition addPerson :: "nat \<Rightarrow> string \<Rightarrow> string \<Rightarrow> app_state \<Rightarrow> app_state" where
  "addPerson now name img s =
     (let newPerson = \<lparr> kp_id = person_id now, kp_name = name, kp_image = img \<rparr>
      in updateKnownPeople (knownPeople s @ [newPerson]) s)"

definition removePerson :: "string \<Rightarrow> app_state \<Rightarrow> app_state" where
  "removePerson pid s =
     updateKnownPeople (filter (\<lambda>p. kp_id p \<noteq> pid) (knownPeople s)) s"

section \<open>Invariants of a batch run\<close>

text \<open>
  The identifiers a run still has to settle: those in the queue and those some worker is
  waiting for.
\<close>

definition pending_ids :: "batch_state \<Rightarrow> string set" where
  "pending_ids s = fs_id ` set (queue s) \<union> fs_id ` set (awaited (workers s))"

text \<open>
  How an item of the displayed list relates to the item at the same position when the run
  was started: same identifier; if it has become \<open>Done\<close> it carries a result; and while it is
  \<open>Pending\<close> or \<open>Processing\<close> its identifier is still to be settled.
\<close>

definition item_rel :: "string set \<Rightarrow> ImageFileState \<Rightarrow> ImageFileState \<Rightarrow> bool" where
  "item_rel P f0 f \<longleftrightarrow>
     fs_id f = fs_id f0
     \<and> (status f0 \<noteq> Done \<longrightarrow> status f = Done \<longrightarrow> result f \<noteq> None)
     \<and> (status f0 \<noteq> Processing \<longrightarrow> status f = Pending \<or> status f = Processing
          \<longrightarrow> fs_id f \<in> P)"

definition batch_inv :: "ImageFileState list \<Rightarrow> batch_state \<Rightarrow> bool" where
  "batch_inv items s \<longleftrightarrow>
     submitted s @ queue s = filesToProcess items
     \<and> list_all2 (item_rel (pending_ids s)) items (imageFiles s)
     \<and> (Finished \<in> set (workers s) \<longrightarrow> queue s = [])"

text \<open>The work a run has left: queued items and calls that have not settled.\<close>

definition work_left :: "batch_state \<Rightarrow> nat" where
  "work_left s = length (queue s) + length (awaited (workers s))"

section \<open>Invariants of the live camera view\<close>

text \<open>
  What holds after every event: timer identifiers are positive and below the next one to be
  handed out; while analysis is on, the ref holds the one active timer, and while it is off
  there is neither a ref nor a timer; the processing flag is set exactly while one call is
  pending; recording and analysis are not both on; analysis needs a stream.
\<close>

definition camera_inv :: "camera_state \<Rightarrow> bool" where
  "camera_inv s \<longleftrightarrow>
     0 < next_timer s
     \<and> (isAnalyzing s \<longrightarrow>
          (case analysisIntervalRef s of
             None \<Rightarrow> False
           | Some i \<Rightarrow> 0 < i \<and> i < next_timer s \<and> timers s = [i]))
     \<and> (\<not> isAnalyzing s \<longrightarrow> analysisIntervalRef s = None \<and> timers s = [])
     \<and> length (in_flight s) = (if isProcessingFrame s then 1 else 0)
     \<and> \<not> (isRecording s \<and> isAnalyzing s)
     \<and> (isAnalyzing s \<longrightarrow> stream s)"

text \<open>The view with analysis off: no timer, no ref, nothing displayed.\<close>

definition analysis_off :: "camera_state \<Rightarrow> bool" where
  "analysis_off s \<longleftrightarrow>
     \<not> isAnalyzing s \<and> analysisIntervalRef s = None \<and> timers s = []
     \<and> detectedFaces s = [] \<and> personCount s = 0"

definition tick_count :: "event list \<Rightarrow> nat" where
  "tick_count es = length (filter is_tick es)"

section \<open>Example inputs\<close>

text \<open>Concrete inputs at which the theorems below are evaluated.\<close>

text \<open>
  Faces as the collaborator's JSON delivers them: a decimal literal denotes the binary64
  value nearest to it. \<open>below_93_hundredths\<close> is the binary64 value just below that of
  \<open>0.93\<close>.
\<close>

definition example_face :: DetectedFace where
  "example_face =
     \<lparr> box = \<lparr> box_x = 1 / 4, box_y = round64 (1 / 10),
               box_width = round64 (3 / 10), box_height = round64 (2 / 5) \<rparr>,
       face_name = ''Alice'', gender = None, confidence = 1 \<rparr>"

definition overflowing_face :: DetectedFace where
  "overflowing_face =
     \<lparr> box = \<lparr> box_x = round64 (4 / 5), box_y = 0, box_width = 1 / 2, box_height = 1 / 2 \<rparr>,
       face_name = ''Unknown'', gender = None, confidence = 1 \<rparr>"

definition below_93_hundredths :: rat where
  "below_93_hundredths = round64 (93 / 100) - 1 / 2 ^ 53"

definition edge_face :: DetectedFace where
  "edge_face =
     \<lparr> box = \<lparr> box_x = round64 (7 / 100), box_y = 0,
               box_width = below_93_hundredths, box_height = 1 / 2 \<rparr>,
       face_name = ''Unknown'', gender = None, confidence = 1 \<rparr>"

definition centre_face :: DetectedFace where
  "centre_face =
     \<lparr> box = \<lparr> box_x = 1 / 4, box_y = 1 / 4, box_width = 1 / 2, box_height = 1 / 2 \<rparr>,
       face_name = ''Alice'', gender = None, confidence = 1 \<rparr>"


definition playing_video :: video_element where
  "playing_video =
     \<lparr> videoWidth = 640, videoHeight = 480, paused = False, ended = False,
       frame_jpeg = ''AAAA'' \<rparr>"

definition bob :: KnownPerson where
  "bob = \<lparr> kp_id = ''person_1000'', kp_name = ''Bob'', kp_image = ''data:bob'' \<rparr>"

definition bob_roster :: app_state where
  "bob_roster = \<lparr> knownPeople = [bob], localStorage = Map.empty \<rparr>"

definition empty_roster :: app_state where
  "empty_roster = \<lparr> knownPeople = [], localStorage = Map.empty \<rparr>"

definition example_result :: RecognitionResult where
  "example_result = \<lparr> faces = [centre_face], res_personCount = 1 \<rparr>"

definition example_item :: "string \<Rightarrow> status \<Rightarrow> RecognitionResult option \<Rightarrow> ImageFileState" where
  "example_item n st r =
     \<lparr> fs_id = n, fs_file = \<lparr> file_name = n, lastModified = 0 \<rparr>, url = ''blob:'' @ n,
       status = st, result = r, naturalSize = \<lparr> ns_width = 0, ns_height = 0 \<rparr> \<rparr>"

text \<open>Seven pending items, and a run in which the second call fails.\<close>

definition seven_pending :: batch_state where
  "seven_pending =
     batch_init\<lparr>imageFiles :=
       map (\<lambda>n. example_item n Pending None)
         [''a'', ''b'', ''c'', ''d'', ''e'', ''f'', ''g'']\<rparr>"

definition seven_schedule :: "batch_event list" where
  "seven_schedule =
     [CallSettled 0 (Resolved example_result), CallSettled 1 (Rejected None),
      ImageLoaded ''d'' 640 480,
      CallSettled 2 (Resolved example_result), CallSettled 1 (Resolved example_result),
      CallSettled 0 (Resolved example_result), CallSettled 2 (Resolved example_result),
      CallSettled 1 (Resolved example_result)]"

text \<open>Five items done and two in error, and a run in which both retries succeed.\<close>

definition five_done_two_error :: batch_state where
  "five_done_two_error =
     batch_init\<lparr>imageFiles :=
       [example_item ''a'' Done (Some example_result),
        example_item ''b'' Error None,
        example_item ''c'' Done (Some example_result),
        example_item ''d'' Done (Some example_result),
        example_item ''e'' Error None,
        example_item ''f'' Done (Some example_result),
        example_item ''g'' Done (Some example_result)]\<rparr>"

definition retry_schedule :: "batch_event list" where
  "retry_schedule =
     [CallSettled 1 (Resolved example_result), CallSettled 0 (Resolved example_result)]"

text \<open>A batch with one finished item, and a selection of two new files.\<close>

definition one_done :: batch_state where
  "one_done =
     batch_init\<lparr>imageFiles := [example_item ''old'' Done (Some example_result)],
                selectedImageId := Some ''old''\<rparr>"

definition two_files :: "File list" where
  "two_files =
     [\<lparr> file_name = ''x.png'', lastModified = 1700 \<rparr>,
      \<lparr> file_name = ''y.png'', lastModified = 42 \<rparr>]"

definition blob_url :: "File \<Rightarrow> string" where
  "blob_url f = ''blob:'' @ file_name f"

text \<open>
  The live view up to the first tick of an analysis session, the events that follow when
  the first call is slow, and the two ways of switching a mode on.
\<close>

definition analysis_started :: "event list" where
  "analysis_started = [StreamAcquired, Browser (Some playing_video) True, ClickAnalyze]"

definition slow_call_rest :: "event list" where
  "slow_call_rest = [Settle 0 (Resolved example_result), Tick 1]"

definition after_stop :: "event list" where
  "after_stop = [Settle 0 (Resolved example_result), Tick 1, PropsChanged, ClickRecord]"

section \<open>Binary64 arithmetic: lemmas\<close>

text \<open>
  The binade is the one the definition of binary64 asks for; a rounding moves a value by at
  most half the distance between neighbours, that is by a relative \<open>2^(-53)\<close> in the normal
  range; a rounded value does not pass a value of the grid it is rounded on; and a value is
  evaluated by exhibiting its binade and the nearest integer multiple of the spacing.
\<close>

lemma bit_length_bounds:
  "0 < n \<Longrightarrow> 2 ^ (bit_length n - 1) \<le> n \<and> n < 2 ^ bit_length n"
proof (induction n rule: bit_length.induct)
  case (1 n)
  show ?case
  proof (cases "n div 2 = 0")
    case True
    with "1.prems" have "n = 1" by presburger
    then show ?thesis by (simp add: bit_length.simps)
  next
    case False
    let ?k = "bit_length (n div 2)"
    from False "1.prems" "1.IH"
    have ih: "2 ^ (?k - 1) \<le> n div 2" "n div 2 < 2 ^ ?k" by auto
    have k: "0 < ?k" using False by (simp add: bit_length.simps [of "n div 2"])
    have bl: "bit_length n = Suc ?k"
      using "1.prems" by (simp add: bit_length.simps [of n])
    have "(2::nat) ^ ?k = 2 * 2 ^ (?k - 1)"
      using k by (cases ?k) simp_all
    with ih(1) have lo: "2 ^ ?k \<le> n" by presburger
    from ih(2) have "n div 2 + 1 \<le> 2 ^ ?k" by simp
    then have hi: "n < 2 * 2 ^ ?k" by presburger
    from lo hi show ?thesis by (simp add: bl)
  qed
qed

lemma binade_bounds:
  assumes "0 < x"
  shows "2 powi binade x \<le> x" and "x < 2 powi (binade x + 1)"
proof -
  have "2 powi binade x \<le> x \<and> x < 2 powi (binade x + 1)"
  proof (cases "1 \<le> x")
    case True
    let ?n = "nat \<lfloor>x\<rfloor>"
    let ?k = "bit_length ?n"
    from True have n: "0 < ?n" by simp
    note b = bit_length_bounds [OF n]
    have k: "0 < ?k" using n by (simp add: bit_length.simps [of ?n])
    have e: "binade x = int (?k - 1)" using True k by (simp add: binade_def)
    have fl: "rat_of_nat ?n = of_int \<lfloor>x\<rfloor>" using True by simp
    have "rat_of_nat (2 ^ (?k - 1)) \<le> rat_of_nat ?n"
      using b by (simp only: of_nat_le_iff)
    also have "\<dots> \<le> x" unfolding fl by simp
    finally have lo: "2 ^ (?k - 1) \<le> x" by simp
    have "x < of_int \<lfloor>x\<rfloor> + 1" by linarith
    also have "\<dots> = rat_of_nat (?n + 1)" using fl by simp
    also have "\<dots> \<le> rat_of_nat (2 ^ ?k)"
    proof -
      from b have "?n + 1 \<le> 2 ^ ?k" by linarith
      then show ?thesis by (rule of_nat_mono)
    qed
    finally have hi: "x < 2 ^ ?k" by simp
    have p1: "(2::rat) powi binade x = 2 ^ (?k - 1)"
      unfolding e by (rule power_int_of_nat)
    have "binade x + 1 = int ?k" using k e by simp
    then have p2: "(2::rat) powi (binade x + 1) = 2 ^ ?k"
      by (simp only: power_int_of_nat)
    from lo hi show ?thesis unfolding p1 p2 by simp
  next
    case False
    let ?y = "1 / x"
    let ?n = "nat (\<lceil>?y\<rceil> - 1)"
    let ?k = "bit_length ?n"
    from False assms have y: "1 < ?y" by simp
    then have c: "2 \<le> \<lceil>?y\<rceil>" by linarith
    then have n: "0 < ?n" by simp
    note b = bit_length_bounds [OF n]
    have k: "0 < ?k" using n by (simp add: bit_length.simps [of ?n])
    have e: "binade x = - int ?k" using False by (simp add: binade_def)
    from c have "0 \<le> \<lceil>?y\<rceil> - 1" by linarith
    then have i: "int ?n = \<lceil>?y\<rceil> - 1" by (rule nat_0_le)
    have "rat_of_nat ?n = rat_of_int (int ?n)" by (simp only: of_int_of_nat_eq)
    also have "\<dots> = rat_of_int (\<lceil>?y\<rceil> - 1)" by (simp only: i)
    also have "\<dots> = of_int \<lceil>?y\<rceil> - 1" by (simp only: of_int_diff of_int_1)
    finally have nn: "rat_of_nat ?n = of_int \<lceil>?y\<rceil> - 1" .
    have "rat_of_nat (2 ^ (?k - 1)) \<le> rat_of_nat ?n"
      using b by (simp only: of_nat_le_iff)
    also have "\<dots> < ?y" unfolding nn by linarith
    finally have lo: "2 ^ (?k - 1) < ?y" by simp
    have "?y \<le> of_int \<lceil>?y\<rceil>" by simp
    also have "\<dots> = rat_of_nat (?n + 1)" using nn by simp
    also have "\<dots> \<le> rat_of_nat (2 ^ ?k)"
    proof -
      from b have "?n + 1 \<le> 2 ^ ?k" by linarith
      then show ?thesis by (rule of_nat_mono)
    qed
    finally have hi: "?y \<le> 2 ^ ?k" by simp
    from hi assms have 1: "1 / 2 ^ ?k \<le> x"
      by (simp add: field_simps)
    from lo assms have 2: "x < 1 / 2 ^ (?k - 1)"
      by (simp add: field_simps)
    have pm: "(2::rat) powi (- int j) = 1 / 2 ^ j" for j
    proof -
      have "(2::rat) powi (- int j) = inverse (2 powi int j)" by (rule power_int_minus)
      also have "\<dots> = 1 / 2 ^ j" by (simp only: power_int_of_nat inverse_eq_divide)
      finally show ?thesis .
    qed
    have p1: "(2::rat) powi (- int ?k) = 1 / 2 ^ ?k" by (rule pm)
    have h: "- int ?k + 1 = - int (?k - 1)" using k by simp
    have p2: "(2::rat) powi (- int ?k + 1) = 1 / 2 ^ (?k - 1)"
      unfolding h by (rule pm)
    from 1 2 show ?thesis unfolding e p1 p2 by (rule conjI)
  qed
  then show "2 powi binade x \<le> x" and "x < 2 powi (binade x + 1)" by simp_all
qed

lemma binade_eqI:
  assumes "2 powi e \<le> x" and "x < 2 powi (e + 1)"
  shows "binade x = e"
proof -
  have "(0::rat) < 2 powi e" by simp
  with assms(1) have pos: "0 < x" by linarith
  note b = binade_bounds [OF pos]
  have "(2::rat) powi binade x < 2 powi (e + 1)" using b(1) assms(2) by simp
  then have 1: "binade x < e + 1"
    using power_int_increasing [of "e + 1" "binade x" "2::rat"] by (cases "binade x < e + 1") auto
  have "(2::rat) powi e < 2 powi (binade x + 1)" using b(2) assms(1) by simp
  then have 2: "e < binade x + 1"
    using power_int_increasing [of "binade x + 1" e "2::rat"] by (cases "e < binade x + 1") auto
  from 1 2 show ?thesis by simp
qed

lemma round_half_even_error: "\<bar>of_int (round_half_even m) - m\<bar> \<le> 1 / 2"
proof -
  have "of_int \<lfloor>m\<rfloor> \<le> m" "m < of_int \<lfloor>m\<rfloor> + 1" by linarith+
  then show ?thesis
    by (auto simp: round_half_even_def Let_def abs_le_iff)
qed

lemma round_half_even_eqI:
  assumes "\<bar>m - of_int n\<bar> < 1 / 2"
  shows "round_half_even m = n"
proof -
  from assms have m: "of_int n - 1 / 2 < m" "m < of_int n + 1 / 2" by linarith+
  have "\<lfloor>m\<rfloor> = n \<or> \<lfloor>m\<rfloor> = n - 1"
    using m by linarith
  then show ?thesis
  proof
    assume f: "\<lfloor>m\<rfloor> = n"
    with m show ?thesis by (simp add: round_half_even_def)
  next
    assume f: "\<lfloor>m\<rfloor> = n - 1"
    with m show ?thesis by (simp add: round_half_even_def)
  qed
qed

lemma round_half_even_le:
  assumes "m \<le> of_int N"
  shows "round_half_even m \<le> N"
proof -
  have f: "\<lfloor>m\<rfloor> \<le> N" using assms by linarith
  show ?thesis
  proof (cases "\<lfloor>m\<rfloor> = N")
    case True
    then have "m = of_int N" using assms by linarith
    then show ?thesis by (simp add: round_half_even_def)
  next
    case False
    with f have "\<lfloor>m\<rfloor> + 1 \<le> N" by simp
    then show ?thesis by (auto simp: round_half_even_def Let_def)
  qed
qed

lemma round_half_even_ge:
  assumes "of_int N \<le> m"
  shows "N \<le> round_half_even m"
proof -
  have "N \<le> \<lfloor>m\<rfloor>" using assms by linarith
  then show ?thesis by (auto simp: round_half_even_def Let_def)
qed

lemma ulp_pos: "0 < ulp x"
  by (simp add: ulp_def)

lemma round64_half_ulp: "\<bar>round64 x - x\<bar> \<le> ulp x / 2"
proof (cases "x = 0")
  case True
  then show ?thesis using ulp_pos [of x] by (simp add: round64_def)
next
  case False
  let ?u = "ulp x"
  have u: "0 < ?u" by (rule ulp_pos)
  then have u0: "?u \<noteq> 0" by auto
  have "round64 x - x = (of_int (round_half_even (x / ?u)) - x / ?u) * ?u"
    using False u0 by (simp add: round64_def left_diff_distrib)
  then have "\<bar>round64 x - x\<bar> = \<bar>of_int (round_half_even (x / ?u)) - x / ?u\<bar> * ?u"
    using u by (simp add: abs_mult)
  also have "\<dots> \<le> 1 / 2 * ?u"
    using u by (intro mult_right_mono round_half_even_error) simp
  finally show ?thesis by simp
qed

lemma binade_ge:
  assumes "2 powi e \<le> x"
  shows "e \<le> binade x"
proof -
  have "(0::rat) < 2 powi e" by simp
  with assms have pos: "0 < x" by linarith
  from binade_bounds(2) [OF pos] assms have "(2::rat) powi e < 2 powi (binade x + 1)" by simp
  then have "e < binade x + 1"
    using power_int_increasing [of "binade x + 1" e "2::rat"] by (cases "e < binade x + 1") auto
  then show ?thesis by simp
qed

lemma binade_less:
  assumes "0 < x" and "x < 2 powi e"
  shows "binade x < e"
proof -
  from binade_bounds(1) [OF assms(1)] assms(2) have "(2::rat) powi binade x < 2 powi e" by simp
  then show ?thesis
    using power_int_increasing [of e "binade x" "2::rat"] by (cases "binade x < e") auto
qed

lemma ulp_normal:
  assumes "2 powi (- 1022) \<le> \<bar>x\<bar>"
  shows "ulp x = 2 powi (binade \<bar>x\<bar> - 52)" and "ulp x \<le> \<bar>x\<bar> / 2 ^ 52"
proof -
  have "(0::rat) < 2 powi (- 1022)" by (rule zero_less_power_int) simp
  with assms have pos: "0 < \<bar>x\<bar>" by linarith
  from binade_ge [OF assms] show u: "ulp x = 2 powi (binade \<bar>x\<bar> - 52)"
    by (simp add: ulp_def max_def)
  have "(2::rat) powi (binade \<bar>x\<bar> - 52) = 2 powi binade \<bar>x\<bar> / 2 powi 52"
    by (rule power_int_diff) simp
  also have "\<dots> = 2 powi binade \<bar>x\<bar> / 2 ^ 52" by simp
  also have "\<dots> \<le> \<bar>x\<bar> / 2 ^ 52"
    using binade_bounds(1) [OF pos] by (simp add: divide_right_mono)
  finally show "ulp x \<le> \<bar>x\<bar> / 2 ^ 52" unfolding u .
qed

lemma ulp_subnormal:
  assumes "x \<noteq> 0" and "\<bar>x\<bar> < 2 powi (- 1022)"
  shows "ulp x = 2 powi (- 1074)"
proof -
  from assms(1) have "0 < \<bar>x\<bar>" by simp
  from binade_less [OF this assms(2)] show ?thesis
    by (simp add: ulp_def max_def)
qed

lemma round64_zero [simp]: "round64 0 = 0"
  by (simp add: round64_def)

lemma round64_rel:
  assumes "2 powi (- 1022) \<le> \<bar>x\<bar>"
  shows "\<bar>round64 x - x\<bar> \<le> \<bar>x\<bar> / 2 ^ 53"
proof -
  have "\<bar>round64 x - x\<bar> \<le> ulp x / 2" by (rule round64_half_ulp)
  also have "\<dots> \<le> (\<bar>x\<bar> / 2 ^ 52) / 2"
    using ulp_normal(2) [OF assms] by simp
  also have "\<dots> = \<bar>x\<bar> / 2 ^ 53" by simp
  finally show ?thesis .
qed

lemma round64_abs: "\<bar>round64 x - x\<bar> \<le> \<bar>x\<bar> / 2 ^ 53 + 2 powi (- 1075)"
proof (cases "2 powi (- 1022) \<le> \<bar>x\<bar>")
  case True
  have "(0::rat) \<le> 2 powi (- 1075)" by simp
  with round64_rel [OF True] show ?thesis by linarith
next
  case False
  show ?thesis
  proof (cases "x = 0")
    case True
    then show ?thesis by simp
  next
    case nz: False
    from False have "\<bar>x\<bar> < 2 powi (- 1022)" by simp
    from ulp_subnormal [OF nz this] have "ulp x / 2 = 2 powi (- 1074) / 2 powi 1" by simp
    also have "\<dots> = 2 powi (- 1074 - 1)" by (rule power_int_diff [symmetric]) simp
    finally have "ulp x / 2 = 2 powi (- 1075)" by simp
    with round64_half_ulp [of x] have "\<bar>round64 x - x\<bar> \<le> 2 powi (- 1075)" by simp
    moreover have "0 \<le> \<bar>x\<bar> / 2 ^ 53" by simp
    ultimately show ?thesis by linarith
  qed
qed

lemma round64_le_grid:
  assumes "x \<le> of_int N * ulp x"
  shows "round64 x \<le> of_int N * ulp x"
proof (cases "x = 0")
  case True
  with assms show ?thesis by simp
next
  case False
  have u: "0 < ulp x" by (rule ulp_pos)
  from assms u have "x / ulp x \<le> of_int N" by (simp add: pos_divide_le_eq)
  then have "round_half_even (x / ulp x) \<le> N" by (rule round_half_even_le)
  then have "rat_of_int (round_half_even (x / ulp x)) \<le> of_int N" by simp
  then show ?thesis
    using False u by (simp add: round64_def)
qed

lemma round64_nonneg:
  assumes "0 \<le> x"
  shows "0 \<le> round64 x"
proof (cases "x = 0")
  case True
  then show ?thesis by simp
next
  case False
  have u: "0 < ulp x" by (rule ulp_pos)
  with assms have "rat_of_int 0 \<le> x / ulp x" by simp
  then have "0 \<le> round_half_even (x / ulp x)" by (rule round_half_even_ge)
  then show ?thesis using False u by (simp add: round64_def)
qed

lemma round64_eqI:
  assumes "2 powi e \<le> \<bar>x\<bar>" and "\<bar>x\<bar> < 2 powi (e + 1)" and "- 1022 \<le> e"
    and "\<bar>x / 2 powi (e - 52) - of_int n\<bar> < 1 / 2"
  shows "round64 x = of_int n * 2 powi (e - 52)"
proof -
  have "(0::rat) < 2 powi e" by simp
  with assms(1) have "0 < \<bar>x\<bar>" by linarith
  then have nz: "x \<noteq> 0" by auto
  have b: "binade \<bar>x\<bar> = e" using assms(1,2) by (rule binade_eqI)
  have u: "ulp x = 2 powi (e - 52)" using assms(3) by (simp add: ulp_def b max_def)
  have "round_half_even (x / ulp x) = n"
    unfolding u using assms(4) by (rule round_half_even_eqI)
  then show ?thesis using nz by (simp add: round64_def u)
qed

lemma tiny_le: "(2::rat) powi (- 1022) \<le> 1 / 2 ^ 54"
  by simp

lemma round64_bounds:
  assumes "0 \<le> x" and "x = 0 \<or> 1 / 2 ^ 54 \<le> x"
  shows "x * (1 - unit_roundoff) \<le> round64 x" and "round64 x \<le> x * (1 + unit_roundoff)"
proof -
  have "\<bar>round64 x - x\<bar> \<le> x * unit_roundoff"
  proof (cases "x = 0")
    case True
    then show ?thesis by simp
  next
    case False
    with assms(2) tiny_le have "2 powi (- 1022) \<le> \<bar>x\<bar>" by linarith
    from round64_rel [OF this] assms(1) show ?thesis
      by (simp add: unit_roundoff_def)
  qed
  then show "x * (1 - unit_roundoff) \<le> round64 x" and "round64 x \<le> x * (1 + unit_roundoff)"
    by (simp_all add: algebra_simps abs_le_iff)
qed

lemma unit_roundoff_range: "0 < unit_roundoff" "unit_roundoff \<le> 1 / 2"
  by (simp_all add: unit_roundoff_def)

lemma quotient_normal:
  fixes c n :: nat
  assumes "0 < n" and "n \<le> 2 ^ 53"
  shows "rat_of_nat c / of_nat n = 0 \<or> 1 / 2 ^ 53 \<le> rat_of_nat c / of_nat n"
proof (cases "c = 0")
  case True
  then show ?thesis by simp
next
  case False
  then have c: "1 \<le> rat_of_nat c" by simp
  have "rat_of_nat n \<le> rat_of_nat (2 ^ 53)" using assms(2) by (rule of_nat_mono)
  then have n: "rat_of_nat n \<le> 2 ^ 53" by simp
  have n0: "0 < rat_of_nat n" using assms(1) by simp
  have "1 / 2 ^ 53 \<le> 1 / rat_of_nat n"
    using n n0 by (simp add: frac_le)
  also have "\<dots> \<le> rat_of_nat c / rat_of_nat n"
    using c n0 by (simp add: divide_right_mono)
  finally show ?thesis by simp
qed

lemma normal_weaken:
  fixes x :: rat
  assumes "x = 0 \<or> 1 / 2 ^ 53 \<le> x"
  shows "x = 0 \<or> 1 / 2 ^ 54 \<le> x"
proof -
  have "(1::rat) / 2 ^ 54 \<le> 1 / 2 ^ 53" by simp
  with assms show ?thesis by linarith
qed

lemma normal_scale:
  fixes n s :: rat
  assumes "1 \<le> n" and "0 \<le> s" and "s = 0 \<or> 1 / 2 ^ 54 \<le> s"
  shows "n * s = 0 \<or> 1 / 2 ^ 54 \<le> n * s"
proof (cases "s = 0")
  case True
  then show ?thesis by simp
next
  case False
  with assms(3) have "1 / 2 ^ 54 \<le> s" by simp
  also have "s = 1 * s" by simp
  also have "\<dots> \<le> n * s" using assms(1,2) by (rule mult_right_mono)
  finally show ?thesis by (rule disjI2)
qed

lemma quotient_rounded_normal:
  assumes "0 \<le> q" and "q = 0 \<or> 1 / 2 ^ 53 \<le> q"
  shows "round64 q = 0 \<or> 1 / 2 ^ 54 \<le> round64 q"
proof (cases "q = 0")
  case True
  then show ?thesis by simp
next
  case False
  with assms(2) have q: "1 / 2 ^ 53 \<le> q" by simp
  then have "q = 0 \<or> 1 / 2 ^ 54 \<le> q" by simp
  from round64_bounds(1) [OF assms(1) this] have "q * (1 - unit_roundoff) \<le> round64 q" .
  moreover have "q * (1 / 2) \<le> q * (1 - unit_roundoff)"
    using assms(1) unit_roundoff_range(2) by (intro mult_left_mono) simp_all
  moreover have "1 / 2 ^ 54 \<le> q * (1 / 2)" using q by simp
  ultimately show ?thesis by linarith
qed

lemma scaled_upper:
  assumes n: "1 \<le> n" and c: "0 \<le> c" and q: "c / n = 0 \<or> 1 / 2 ^ 53 \<le> c / n"
    and s: "0 \<le> s" "s \<le> round64 (c / n)" "s = 0 \<or> 1 / 2 ^ 54 \<le> s"
  shows "round64 (n * s) \<le> c * (1 + unit_roundoff)\<^sup>2"
proof -
  let ?u = "unit_roundoff"
  have n0: "0 < n" using n by simp
  have q0: "0 \<le> c / n" using c n0 by simp
  have qn: "c / n = 0 \<or> 1 / 2 ^ 54 \<le> c / n" using q by (rule normal_weaken)
  have ns0: "0 \<le> n * s" using n0 s(1) by simp
  have nsn: "n * s = 0 \<or> 1 / 2 ^ 54 \<le> n * s" using n s(1,3) by (rule normal_scale)
  have u1: "0 \<le> 1 + ?u" using unit_roundoff_range(1) by simp
  have "round64 (n * s) \<le> n * s * (1 + ?u)"
    using ns0 nsn by (rule round64_bounds(2))
  also have "\<dots> \<le> n * round64 (c / n) * (1 + ?u)"
    using s(2) n0 u1 by (intro mult_right_mono mult_left_mono) simp_all
  also have "\<dots> \<le> n * (c / n * (1 + ?u)) * (1 + ?u)"
    using round64_bounds(2) [OF q0 qn] n0 u1
    by (intro mult_right_mono mult_left_mono) simp_all
  also have "\<dots> = c * (1 + ?u)\<^sup>2"
    using n0 by (simp add: power2_eq_square)
  finally show ?thesis .
qed

lemma scaled_lower:
  assumes n: "1 \<le> n" and c: "0 \<le> c" and q: "c / n = 0 \<or> 1 / 2 ^ 53 \<le> c / n"
  shows "c * (1 - unit_roundoff)\<^sup>2 \<le> round64 (n * round64 (c / n))"
proof -
  let ?u = "unit_roundoff"
  let ?s = "round64 (c / n)"
  have n0: "0 < n" using n by simp
  have q0: "0 \<le> c / n" using c n0 by simp
  have qn: "c / n = 0 \<or> 1 / 2 ^ 54 \<le> c / n" using q by (rule normal_weaken)
  have s0: "0 \<le> ?s" using q0 by (rule round64_nonneg)
  have sn: "?s = 0 \<or> 1 / 2 ^ 54 \<le> ?s" using q0 q by (rule quotient_rounded_normal)
  have ns0: "0 \<le> n * ?s" using n0 s0 by simp
  have nsn: "n * ?s = 0 \<or> 1 / 2 ^ 54 \<le> n * ?s" using n s0 sn by (rule normal_scale)
  have u1: "0 \<le> 1 - ?u" using unit_roundoff_range(2) by simp
  have "c * (1 - ?u)\<^sup>2 = n * (c / n * (1 - ?u)) * (1 - ?u)"
    using n0 by (simp add: power2_eq_square)
  also have "\<dots> \<le> n * ?s * (1 - ?u)"
    using round64_bounds(1) [OF q0 qn] n0 u1
    by (intro mult_right_mono mult_left_mono) simp_all
  also have "\<dots> \<le> round64 (n * ?s)"
    using ns0 nsn by (rule round64_bounds(1))
  finally show ?thesis .
qed

lemma round64_of_nat:
  assumes "n < 2 ^ 53"
  shows "round64 (rat_of_nat n) = rat_of_nat n"
proof (cases "n = 0")
  case True
  then show ?thesis by simp
next
  case False
  let ?x = "rat_of_nat n"
  let ?b = "binade ?x"
  have x1: "1 \<le> ?x" using False by simp
  then have pos: "0 < ?x" by simp
  have "rat_of_nat n < rat_of_nat (2 ^ 53)" using assms by (simp only: of_nat_less_iff)
  then have x2: "?x < 2 powi 53" by simp
  have b0: "0 \<le> ?b" using x1 binade_ge [of 0 ?x] by simp
  have b1: "?b < 53" using pos x2 by (rule binade_less)
  define k where "k = nat (52 - ?b)"
  have kb: "?b - 52 = - int k" using b1 by (simp add: k_def)
  have p: "(2::rat) powi (?b - 52) = 1 / 2 ^ k"
  proof -
    have "(2::rat) powi (- int k) = inverse (2 powi int k)" by (rule power_int_minus)
    also have "\<dots> = 1 / 2 ^ k" by (simp only: power_int_of_nat inverse_eq_divide)
    finally show ?thesis unfolding kb .
  qed
  have a: "\<bar>?x\<bar> = ?x" by simp
  have "round64 ?x = of_int (int (n * 2 ^ k)) * 2 powi (?b - 52)"
  proof (rule round64_eqI)
    show "2 powi ?b \<le> \<bar>?x\<bar>" unfolding a using pos by (rule binade_bounds(1))
    show "\<bar>?x\<bar> < 2 powi (?b + 1)" unfolding a using pos by (rule binade_bounds(2))
    show "- 1022 \<le> ?b" using b0 by simp
    show "\<bar>?x / 2 powi (?b - 52) - of_int (int (n * 2 ^ k))\<bar> < 1 / 2"
      unfolding p by simp
  qed
  then show ?thesis unfolding p by simp
qed

text \<open>Concrete roundings used by the examples.\<close>

lemma round64_half: "round64 (800 / 1600) = 1 / 2"
  using round64_eqI [of "- 1" "800 / 1600" 4503599627370496] by simp

lemma round64_two_thirds: "round64 (600 / 900) = 6004799503160661 / 2 ^ 53"
  using round64_eqI [of "- 1" "600 / 900" 6004799503160661] by simp

lemma round64_scale_481: "round64 (481 / 1920) = 4512982126594185 / 2 ^ 54"
  using round64_eqI [of "- 2" "481 / 1920" 4512982126594185] by simp

lemma round64_scale_600: "round64 (600 / 1080) = 5003999585967218 / 2 ^ 53"
  using round64_eqI [of "- 1" "600 / 1080" 5003999585967218] by simp

lemma round64_width_481:
  "round64 (1920 * (4512982126594185 / 2 ^ 54)) = 481 + 1 / 2 ^ 44"
  using round64_eqI [of 8 "1920 * (4512982126594185 / 2 ^ 54)" 8461841487364097] by simp

lemma round64_height_481:
  "round64 (1080 * (4512982126594185 / 2 ^ 54)) = 4329 / 16"
  using round64_eqI [of 8 "1080 * (4512982126594185 / 2 ^ 54)" 4759785836642304] by simp

lemma round64_tenth: "round64 (1 / 10) = 3602879701896397 / 2 ^ 55"
  using round64_eqI [of "- 4" "1 / 10" 7205759403792794] by simp

lemma round64_three_tenths: "round64 (3 / 10) = 5404319552844595 / 2 ^ 54"
  using round64_eqI [of "- 2" "3 / 10" 5404319552844595] by simp

lemma round64_two_fifths: "round64 (2 / 5) = 3602879701896397 / 2 ^ 53"
  using round64_eqI [of "- 2" "2 / 5" 7205759403792794] by simp

lemma round64_four_fifths: "round64 (4 / 5) = 3602879701896397 / 2 ^ 52"
  using round64_eqI [of "- 1" "4 / 5" 7205759403792794] by simp

lemma round64_seven_hundredths: "round64 (7 / 100) = 1261007895663739 / 2 ^ 54"
  using round64_eqI [of "- 4" "7 / 100" 5044031582654956] by simp

lemma round64_93_hundredths: "round64 (93 / 100) = 8376695306909123 / 2 ^ 53"
  using round64_eqI [of "- 1" "93 / 100" 8376695306909123] by simp

lemma percent_quarter: "js_mul (1 / 4) 100 = 25"
  unfolding js_mul_def using round64_of_nat [of 25] by simp

lemma percent_half: "js_mul (1 / 2) 100 = 50"
  unfolding js_mul_def using round64_of_nat [of 50] by simp

lemma percent_zero: "js_mul 0 100 = 0"
  by (simp add: js_mul_def)

lemma percent_tenth: "js_mul (round64 (1 / 10)) 100 = 10"
  unfolding js_mul_def round64_tenth
  using round64_eqI [of 3 "3602879701896397 / 2 ^ 55 * 100" 5629499534213120] by simp

lemma percent_three_tenths: "js_mul (round64 (3 / 10)) 100 = 30"
  unfolding js_mul_def round64_three_tenths
  using round64_eqI [of 4 "5404319552844595 / 2 ^ 54 * 100" 8444249301319680] by simp

lemma percent_two_fifths: "js_mul (round64 (2 / 5)) 100 = 40"
  unfolding js_mul_def round64_two_fifths
  using round64_eqI [of 5 "3602879701896397 / 2 ^ 53 * 100" 5629499534213120] by simp

lemma percent_four_fifths: "js_mul (round64 (4 / 5)) 100 = 80"
  unfolding js_mul_def round64_four_fifths
  using round64_eqI [of 6 "3602879701896397 / 2 ^ 52 * 100" 5629499534213120] by simp

lemma percent_seven_hundredths: "js_mul (round64 (7 / 100)) 100 = 7 + 1 / 2 ^ 50"
  unfolding js_mul_def round64_seven_hundredths
  using round64_eqI [of 2 "1261007895663739 / 2 ^ 54 * 100" 7881299347898369] by simp

lemma percent_below_93: "js_mul below_93_hundredths 100 = 93"
  unfolding js_mul_def below_93_hundredths_def round64_93_hundredths
  using round64_eqI [of 6 "(8376695306909123 / 2 ^ 53 - 1 / 2 ^ 53) * 100" 6544293208522752]
  by simp

section \<open>Geometry Mapper: theorems\<close>

text \<open>
  C5 (amended). For client and intrinsic sizes that are integers below \<open>2^53\<close>, the
  intrinsic ones positive, and a mounted container, \<open>calculateScale\<close> sets the scale to the
  smaller of the two binary64 quotients \<open>clientWidth / naturalWidth\<close> and
  \<open>clientHeight / naturalHeight\<close>. The scaled width and height, each a binary64 product,
  exceed the client width and height by at most the factor \<open>(1 + 2^(-53))^2\<close> of two
  roundings, and in one dimension the scaled size is at least the client size times
  \<open>(1 - 2^(-53))^2\<close>. Where the scale is the exact quotient of a dimension, the scaled size
  equals the client size in that dimension.
\<close>

theorem calculateScale_fits:
  fixes clientWidth clientHeight naturalWidth naturalHeight :: nat and s0 :: rat
  defines "scale \<equiv>
    calculateScale (Some (of_nat clientWidth, of_nat clientHeight))
      (of_nat naturalWidth) (of_nat naturalHeight) s0"
  assumes "0 < naturalWidth" and "0 < naturalHeight"
    and "naturalWidth < 2 ^ 53" and "naturalHeight < 2 ^ 53"
    and "clientWidth < 2 ^ 53" and "clientHeight < 2 ^ 53"
  shows "scale = min (round64 (of_nat clientWidth / of_nat naturalWidth))
                     (round64 (of_nat clientHeight / of_nat naturalHeight))
       \<and> scaledWidth (of_nat naturalWidth) scale
           \<le> of_nat clientWidth * (1 + unit_roundoff)\<^sup>2
       \<and> scaledHeight (of_nat naturalHeight) scale
           \<le> of_nat clientHeight * (1 + unit_roundoff)\<^sup>2
       \<and> (of_nat clientWidth * (1 - unit_roundoff)\<^sup>2
             \<le> scaledWidth (of_nat naturalWidth) scale
          \<or> of_nat clientHeight * (1 - unit_roundoff)\<^sup>2
             \<le> scaledHeight (of_nat naturalHeight) scale)
       \<and> (scale = of_nat clientWidth / of_nat naturalWidth
            \<longrightarrow> scaledWidth (of_nat naturalWidth) scale = of_nat clientWidth)
       \<and> (scale = of_nat clientHeight / of_nat naturalHeight
            \<longrightarrow> scaledHeight (of_nat naturalHeight) scale = of_nat clientHeight)"
proof -
  let ?cw = "rat_of_nat clientWidth" and ?ch = "rat_of_nat clientHeight"
  let ?nw = "rat_of_nat naturalWidth" and ?nh = "rat_of_nat naturalHeight"
  let ?sx = "round64 (?cw / ?nw)" and ?sy = "round64 (?ch / ?nh)"
  have nw: "1 \<le> ?nw" and nh: "1 \<le> ?nh" using assms(2,3) by simp_all
  have cw: "0 \<le> ?cw" and ch: "0 \<le> ?ch" by simp_all
  have qx: "?cw / ?nw = 0 \<or> 1 / 2 ^ 53 \<le> ?cw / ?nw"
    using assms(2,4) by (intro quotient_normal) simp_all
  have qy: "?ch / ?nh = 0 \<or> 1 / 2 ^ 53 \<le> ?ch / ?nh"
    using assms(3,5) by (intro quotient_normal) simp_all
  have qx0: "0 \<le> ?cw / ?nw" and qy0: "0 \<le> ?ch / ?nh" by simp_all
  have sx0: "0 \<le> ?sx" using qx0 by (rule round64_nonneg)
  have sy0: "0 \<le> ?sy" using qy0 by (rule round64_nonneg)
  have sxn: "?sx = 0 \<or> 1 / 2 ^ 54 \<le> ?sx" using qx0 qx by (rule quotient_rounded_normal)
  have syn: "?sy = 0 \<or> 1 / 2 ^ 54 \<le> ?sy" using qy0 qy by (rule quotient_rounded_normal)
  have sc: "scale = min ?sx ?sy"
    using assms(2,3) by (simp add: scale_def calculateScale_def js_div_def Let_def)
  have s0: "0 \<le> scale" using sx0 sy0 by (simp add: sc)
  have sn: "scale = 0 \<or> 1 / 2 ^ 54 \<le> scale"
    using sxn syn unfolding sc min_def by auto
  have w: "scaledWidth ?nw scale \<le> ?cw * (1 + unit_roundoff)\<^sup>2"
    unfolding scaledWidth_def js_mul_def
    using nw cw qx s0 _ sn by (rule scaled_upper) (simp add: sc)
  have h: "scaledHeight ?nh scale \<le> ?ch * (1 + unit_roundoff)\<^sup>2"
    unfolding scaledHeight_def js_mul_def
    using nh ch qy s0 _ sn by (rule scaled_upper) (simp add: sc)
  have e: "?cw * (1 - unit_roundoff)\<^sup>2 \<le> scaledWidth ?nw scale
         \<or> ?ch * (1 - unit_roundoff)\<^sup>2 \<le> scaledHeight ?nh scale"
  proof (cases "?sx \<le> ?sy")
    case True
    then have "scale = ?sx" by (simp add: sc)
    then have "?cw * (1 - unit_roundoff)\<^sup>2 \<le> scaledWidth ?nw scale"
      unfolding scaledWidth_def js_mul_def using scaled_lower [OF nw cw qx] by simp
    then show ?thesis ..
  next
    case False
    then have "scale = ?sy" by (simp add: sc)
    then have "?ch * (1 - unit_roundoff)\<^sup>2 \<le> scaledHeight ?nh scale"
      unfolding scaledHeight_def js_mul_def using scaled_lower [OF nh ch qy] by simp
    then show ?thesis ..
  qed
  have xw: "scaledWidth ?nw scale = ?cw" if "scale = ?cw / ?nw"
  proof -
    have "?nw * scale = ?cw" using that nw by simp
    then show ?thesis
      unfolding scaledWidth_def js_mul_def using round64_of_nat [OF assms(6)] by simp
  qed
  have xh: "scaledHeight ?nh scale = ?ch" if "scale = ?ch / ?nh"
  proof -
    have "?nh * scale = ?ch" using that nh by simp
    then show ?thesis
      unfolding scaledHeight_def js_mul_def using round64_of_nat [OF assms(7)] by simp
  qed
  from sc w h e xw xh show ?thesis by blast
qed

theorem calculateScale_fits_witness:
  "calculateScale (Some (of_nat 800, of_nat 600)) (of_nat 1600) (of_nat 900) 1 = 1 / 2
   \<and> scaledWidth (of_nat 1600)
        (calculateScale (Some (of_nat 800, of_nat 600)) (of_nat 1600) (of_nat 900) 1) = 800
   \<and> scaledHeight (of_nat 900)
        (calculateScale (Some (of_nat 800, of_nat 600)) (of_nat 1600) (of_nat 900) 1) = 450"
proof -
  let ?s = "calculateScale (Some (of_nat 800, of_nat 600)) (of_nat 1600) (of_nat 900) 1"
  have h: "0 < (1600::nat)" "0 < (900::nat)" "(1600::nat) < 2 ^ 53" "(900::nat) < 2 ^ 53"
    "(800::nat) < 2 ^ 53" "(600::nat) < 2 ^ 53"
    by simp_all
  note f = calculateScale_fits [of 1600 900 800 600 1, OF h]
  have m: "min (round64 (800 / 1600)) (round64 (600 / 900)) = 1 / 2"
    unfolding round64_half round64_two_thirds by simp
  from f have "?s = min (round64 (of_nat 800 / of_nat 1600)) (round64 (of_nat 600 / of_nat 900))"
    by (rule conjunct1)
  with m have s: "?s = 1 / 2" by simp
  then have q: "?s = of_nat 800 / of_nat 1600" by simp
  from f q have "scaledWidth (of_nat 1600) ?s = of_nat 800" by blast
  then have w: "scaledWidth (of_nat 1600) ?s = 800" by simp
  have "round64 (rat_of_nat 450) = rat_of_nat 450" by (rule round64_of_nat) simp
  then have h: "scaledHeight (of_nat 900) ?s = 450"
    unfolding s scaledHeight_def js_mul_def by simp
  from s w h show ?thesis by blast
qed

text \<open>
  C5 as stated fails: for a client of 481 by 600 and intrinsic size 1920 by 1080 the scale is
  the rounded quotient \<open>0.25052083333333336\<close>, the scaled width is
  \<open>481 + 2^(-44)\<close>, above the client width, and the scaled height is 270.5625, so neither
  dimension is equal to the client's.
\<close>

theorem calculateScale_rounding_counterexample:
  "calculateScale (Some (481, 600)) 1920 1080 1 = 4512982126594185 / 2 ^ 54
   \<and> scaledWidth 1920 (calculateScale (Some (481, 600)) 1920 1080 1) = 481 + 1 / 2 ^ 44
   \<and> 481 < scaledWidth 1920 (calculateScale (Some (481, 600)) 1920 1080 1)
   \<and> scaledHeight 1080 (calculateScale (Some (481, 600)) 1920 1080 1) = 4329 / 16
   \<and> scaledHeight 1080 (calculateScale (Some (481, 600)) 1920 1080 1) \<noteq> 600"
proof -
  have m: "min (round64 (481 / 1920)) (round64 (600 / 1080)) = 4512982126594185 / 2 ^ 54"
    unfolding round64_scale_481 round64_scale_600 by simp
  have s: "calculateScale (Some (481, 600)) 1920 1080 1 = 4512982126594185 / 2 ^ 54"
    using m by (simp add: calculateScale_def js_div_def)
  show ?thesis
    unfolding s scaledWidth_def scaledHeight_def js_mul_def
      round64_width_481 round64_height_481
    by simp
qed

lemma pow2_cancel:
  assumes "k \<le> 0"
  shows "(2::rat) ^ nat (- k) * 2 powi k = 1"
proof -
  have "(2::rat) ^ nat (- k) = 2 powi int (nat (- k))" by (simp only: power_int_of_nat)
  also have "int (nat (- k)) = - k" using assms by simp
  finally have "(2::rat) ^ nat (- k) * 2 powi k = 2 powi (- k) * 2 powi k" by simp
  also have "\<dots> = 2 powi (- k + k)" by (rule power_int_add [symmetric]) simp
  finally show ?thesis by simp
qed

lemma percent_bounds:
  assumes "0 \<le> x" and "x \<le> 1"
  shows "0 \<le> js_mul x 100" and "js_mul x 100 \<le> 100"
    and "\<bar>js_mul x 100 - x * 100\<bar> \<le> x * 100 / 2 ^ 53 + 2 powi (- 1075)"
    and "\<bar>js_mul x 100 - x * 100\<bar> \<le> 100 / 2 ^ 52"
proof -
  let ?y = "x * 100"
  have y0: "0 \<le> ?y" and y1: "?y \<le> 100" using assms by simp_all
  show "0 \<le> js_mul x 100"
    unfolding js_mul_def using y0 by (rule round64_nonneg)
  show "js_mul x 100 \<le> 100"
  proof (cases "?y = 0")
    case True
    then show ?thesis by (simp add: js_mul_def)
  next
    case False
    with y0 have pos: "0 < \<bar>?y\<bar>" by simp
    have "\<bar>?y\<bar> < 2 powi 7" using y0 y1 by simp
    with pos have b: "binade \<bar>?y\<bar> < 7" by (rule binade_less)
    define k where "k = max (binade \<bar>?y\<bar>) (- 1022) - 52"
    have k: "k \<le> 0" using b by (simp add: k_def)
    have u: "ulp ?y = 2 powi k" by (simp add: ulp_def k_def)
    have "of_int (100 * 2 ^ nat (- k)) * ulp ?y = 100 * ((2::rat) ^ nat (- k) * 2 powi k)"
      unfolding u by simp
    also have "\<dots> = 100" using pow2_cancel [OF k] by simp
    finally have g: "of_int (100 * 2 ^ nat (- k)) * ulp ?y = 100" .
    have "round64 ?y \<le> of_int (100 * 2 ^ nat (- k)) * ulp ?y"
      by (rule round64_le_grid) (simp only: g y1)
    then show ?thesis unfolding g js_mul_def .
  qed
  have "\<bar>round64 ?y - ?y\<bar> \<le> \<bar>?y\<bar> / 2 ^ 53 + 2 powi (- 1075)" by (rule round64_abs)
  then show e: "\<bar>js_mul x 100 - x * 100\<bar> \<le> x * 100 / 2 ^ 53 + 2 powi (- 1075)"
    using y0 by (simp add: js_mul_def)
  have "x * 100 / 2 ^ 53 \<le> 100 / 2 ^ 53" using y1 by (simp add: divide_right_mono)
  moreover have "(2::rat) powi (- 1075) \<le> 100 / 2 ^ 53" by simp
  moreover have "(100::rat) / 2 ^ 53 + 100 / 2 ^ 53 = 100 / 2 ^ 52" by simp
  ultimately show "\<bar>js_mul x 100 - x * 100\<bar> \<le> 100 / 2 ^ 52"
    using e by linarith
qed

lemma percent_sum:
  assumes "0 \<le> x" and "0 \<le> w" and "x + w \<le> 1"
  shows "js_mul x 100 + js_mul w 100 \<le> 100 * (1 + 1 / 2 ^ 52)"
proof -
  have x1: "x \<le> 1" and w1: "w \<le> 1" using assms by simp_all
  note ex = percent_bounds(3) [OF assms(1) x1]
  note ew = percent_bounds(3) [OF assms(2) w1]
  have "js_mul x 100 + js_mul w 100
          \<le> (x + w) * 100 + (x + w) * 100 / 2 ^ 53 + 2 * 2 powi (- 1075)"
    using ex ew by (simp add: abs_le_iff algebra_simps add_divide_distrib)
  moreover have "(x + w) * 100 \<le> 100" using assms(3) by simp
  moreover have "(x + w) * 100 / 2 ^ 53 \<le> 100 / 2 ^ 53"
    using assms(3) by (simp add: divide_right_mono)
  moreover have "2 * (2::rat) powi (- 1075) \<le> 100 / 2 ^ 53" by simp
  moreover have "(100::rat) + 100 / 2 ^ 53 + 100 / 2 ^ 53 = 100 * (1 + 1 / 2 ^ 52)" by simp
  ultimately show ?thesis by linarith
qed

lemma overlay_component:
  assumes "0 \<le> x" and "x \<le> 1" and "0 \<le> c"
  shows "0 \<le> css_percent (js_mul x 100) c"
    and "css_percent (js_mul x 100) c \<le> c"
    and "\<bar>css_percent (js_mul x 100) c - x * c\<bar> \<le> c / 2 ^ 52"
proof -
  let ?p = "js_mul x 100"
  note b = percent_bounds [OF assms(1,2)]
  show "0 \<le> css_percent ?p c"
    using b(1) assms(3) by (simp add: css_percent_def)
  have "?p / 100 * c \<le> 1 * c"
    using b(2) assms(3) by (intro mult_right_mono) simp_all
  then show "css_percent ?p c \<le> c" by (simp add: css_percent_def)
  have c100: "0 \<le> c / 100" using assms(3) by simp
  have "css_percent ?p c - x * c = (?p - x * 100) * (c / 100)"
    by (simp add: css_percent_def field_simps)
  then have "\<bar>css_percent ?p c - x * c\<bar> = \<bar>?p - x * 100\<bar> * \<bar>c / 100\<bar>"
    by (simp only: abs_mult)
  also have "\<dots> = \<bar>?p - x * 100\<bar> * (c / 100)"
    using c100 by (simp only: abs_of_nonneg)
  also have "\<dots> \<le> (100 / 2 ^ 52) * (c / 100)"
    using b(4) c100 by (rule mult_right_mono)
  finally show "\<bar>css_percent ?p c - x * c\<bar> \<le> c / 2 ^ 52" by simp
qed

lemma overlay_span:
  assumes "0 \<le> x" and "0 \<le> w" and "x + w \<le> 1" and "0 \<le> c"
  shows "css_percent (js_mul x 100) c + css_percent (js_mul w 100) c \<le> c * (1 + 1 / 2 ^ 52)"
proof -
  have "css_percent (js_mul x 100) c + css_percent (js_mul w 100) c
          = (js_mul x 100 + js_mul w 100) / 100 * c"
    by (simp add: css_percent_def field_simps)
  also have "\<dots> \<le> (100 * (1 + 1 / 2 ^ 52)) / 100 * c"
    using percent_sum [OF assms(1,2,3)] assms(4)
    by (intro mult_right_mono divide_right_mono) simp_all
  finally show ?thesis by (simp add: mult.commute)
qed

lemma overlay_rect_eq:
  "overlay_rect face sw sh =
     \<lparr> rect_left = js_mul (box_x (box face)) 100 / 100 * sw,
       rect_top = js_mul (box_y (box face)) 100 / 100 * sh,
       rect_width = js_mul (box_width (box face)) 100 / 100 * sw,
       rect_height = js_mul (box_height (box face)) 100 / 100 * sh \<rparr>"
  by (simp add: overlay_rect_def face_style_def css_percent_def)

lemma overlay_rect_sel:
  "rect_left (overlay_rect face sw sh) = css_percent (js_mul (box_x (box face)) 100) sw"
  "rect_top (overlay_rect face sw sh) = css_percent (js_mul (box_y (box face)) 100) sh"
  "rect_width (overlay_rect face sw sh) = css_percent (js_mul (box_width (box face)) 100) sw"
  "rect_height (overlay_rect face sw sh) = css_percent (js_mul (box_height (box face)) 100) sh"
  by (simp_all add: overlay_rect_def face_style_def)

text \<open>
  C6 (amended). For a face whose box components lie in \<open>[0, 1]\<close> and an overlay container
  of non-negative size, the rendered rectangle has as left, top, width and height the
  binary64 products \<open>x * 100\<close>, \<open>y * 100\<close>, \<open>width * 100\<close>, \<open>height * 100\<close> taken as
  percentages of the container. Each of them differs from \<open>x * scaledWidth\<close>,
  \<open>y * scaledHeight\<close>, \<open>width * scaledWidth\<close>, \<open>height * scaledHeight\<close> by at most
  \<open>2^(-52)\<close> of the container's extent, and lies between 0 and that extent. When in
  addition \<open>x + width \<le> 1\<close> and \<open>y + height \<le> 1\<close>, the rectangle lies inside the
  container enlarged by the factor \<open>1 + 2^(-52)\<close>.
\<close>

theorem overlay_rect_mapped:
  assumes "box_in_unit (box face)" and "0 \<le> sw" and "0 \<le> sh"
  shows "overlay_rect face sw sh =
           \<lparr> rect_left = js_mul (box_x (box face)) 100 / 100 * sw,
             rect_top = js_mul (box_y (box face)) 100 / 100 * sh,
             rect_width = js_mul (box_width (box face)) 100 / 100 * sw,
             rect_height = js_mul (box_height (box face)) 100 / 100 * sh \<rparr>
       \<and> \<bar>rect_left (overlay_rect face sw sh) - box_x (box face) * sw\<bar> \<le> sw / 2 ^ 52
       \<and> \<bar>rect_top (overlay_rect face sw sh) - box_y (box face) * sh\<bar> \<le> sh / 2 ^ 52
       \<and> \<bar>rect_width (overlay_rect face sw sh) - box_width (box face) * sw\<bar> \<le> sw / 2 ^ 52
       \<and> \<bar>rect_height (overlay_rect face sw sh) - box_height (box face) * sh\<bar> \<le> sh / 2 ^ 52
       \<and> 0 \<le> rect_left (overlay_rect face sw sh) \<and> rect_left (overlay_rect face sw sh) \<le> sw
       \<and> 0 \<le> rect_top (overlay_rect face sw sh) \<and> rect_top (overlay_rect face sw sh) \<le> sh
       \<and> 0 \<le> rect_width (overlay_rect face sw sh) \<and> rect_width (overlay_rect face sw sh) \<le> sw
       \<and> 0 \<le> rect_height (overlay_rect face sw sh) \<and> rect_height (overlay_rect face sw sh) \<le> sh
       \<and> (box_x (box face) + box_width (box face) \<le> 1
            \<and> box_y (box face) + box_height (box face) \<le> 1
            \<longrightarrow> rect_within (overlay_rect face sw sh)
                  (sw * (1 + 1 / 2 ^ 52)) (sh * (1 + 1 / 2 ^ 52)))"
proof -
  from assms(1) have
    x: "0 \<le> box_x (box face)" "box_x (box face) \<le> 1" and
    y: "0 \<le> box_y (box face)" "box_y (box face) \<le> 1" and
    w: "0 \<le> box_width (box face)" "box_width (box face) \<le> 1" and
    h: "0 \<le> box_height (box face)" "box_height (box face) \<le> 1"
    by (simp_all add: box_in_unit_def)
  note cx = overlay_component [OF x assms(2)]
  note cy = overlay_component [OF y assms(3)]
  note cw = overlay_component [OF w assms(2)]
  note ch = overlay_component [OF h assms(3)]
  have within: "rect_within (overlay_rect face sw sh)
                  (sw * (1 + 1 / 2 ^ 52)) (sh * (1 + 1 / 2 ^ 52))"
    if "box_x (box face) + box_width (box face) \<le> 1"
       "box_y (box face) + box_height (box face) \<le> 1"
    unfolding rect_within_def overlay_rect_sel
    using cx(1) cy(1) overlay_span [OF x(1) w(1) that(1) assms(2)]
      overlay_span [OF y(1) h(1) that(2) assms(3)]
    by simp
  show ?thesis
    unfolding overlay_rect_sel
    using overlay_rect_eq [of face sw sh] cx cy cw ch within
    unfolding overlay_rect_sel by blast
qed

theorem overlay_rect_mapped_witness:
  "box_in_unit (box example_face) \<and> (0::rat) \<le> 800 \<and> (0::rat) \<le> 450
   \<and> overlay_rect example_face 800 450
       = \<lparr> rect_left = 200, rect_top = 45, rect_width = 240, rect_height = 180 \<rparr>
   \<and> rect_within (overlay_rect example_face 800 450)
        (800 * (1 + 1 / 2 ^ 52)) (450 * (1 + 1 / 2 ^ 52))"
proof -
  have b: "box_in_unit (box example_face)"
    by (simp add: box_in_unit_def example_face_def round64_tenth round64_three_tenths
          round64_two_fifths)
  have s: "box_x (box example_face) + box_width (box example_face) \<le> 1
           \<and> box_y (box example_face) + box_height (box example_face) \<le> 1"
    by (simp add: example_face_def round64_tenth round64_three_tenths round64_two_fifths)
  have h1: "(0::rat) \<le> 800" and h2: "(0::rat) \<le> 450" by simp_all
  note m = overlay_rect_mapped [OF b h1 h2]
  from m have e: "overlay_rect example_face 800 450 =
           \<lparr> rect_left = js_mul (box_x (box example_face)) 100 / 100 * 800,
             rect_top = js_mul (box_y (box example_face)) 100 / 100 * 450,
             rect_width = js_mul (box_width (box example_face)) 100 / 100 * 800,
             rect_height = js_mul (box_height (box example_face)) 100 / 100 * 450 \<rparr>"
    by (rule conjunct1)
  from m s have w: "rect_within (overlay_rect example_face 800 450)
        (800 * (1 + 1 / 2 ^ 52)) (450 * (1 + 1 / 2 ^ 52))"
    by blast
  have v: "overlay_rect example_face 800 450
       = \<lparr> rect_left = 200, rect_top = 45, rect_width = 240, rect_height = 180 \<rparr>"
    unfolding e
    by (simp add: example_face_def percent_quarter percent_tenth percent_three_tenths
          percent_two_fifths)
  from b h1 h2 v w show ?thesis by blast
qed

text \<open>
  C6 as stated fails: the box \<open>{x: 0.8, y: 0, width: 0.5, height: 0.5}\<close> has all components
  in \<open>[0, 1]\<close>, and at scaled size 800 by 450 its overlay ends at 1040 pixels, outside the
  container. The component does not clamp.
\<close>

theorem overlay_rect_overflow_counterexample:
  "box_in_unit (box overflowing_face)
   \<and> rect_left (overlay_rect overflowing_face 800 450)
       + rect_width (overlay_rect overflowing_face 800 450) = 1040
   \<and> \<not> rect_within (overlay_rect overflowing_face 800 450) 800 450"
proof -
  have b: "box_in_unit (box overflowing_face)"
    by (simp add: box_in_unit_def overflowing_face_def round64_four_fifths)
  have l: "rect_left (overlay_rect overflowing_face 800 450) = 640"
    and w: "rect_width (overlay_rect overflowing_face 800 450) = 400"
    by (simp_all add: overlay_rect_sel css_percent_def overflowing_face_def
          percent_four_fifths percent_half)
  from b l w show ?thesis by (simp add: rect_within_def)
qed

text \<open>
  Rounding alone can also carry a rectangle past the edge: with \<open>x = 0.07\<close> and the width
  just below \<open>0.93\<close> the sum \<open>x + width\<close> is at most 1, but the two percentages written
  add up to \<open>100 + 2^(-50)\<close>.
\<close>

lemma overlay_rect_rounding_example:
  "box_in_unit (box edge_face)
   \<and> box_x (box edge_face) + box_width (box edge_face) \<le> 1
   \<and> left_pct (face_style edge_face) + width_pct (face_style edge_face) = 100 + 1 / 2 ^ 50
   \<and> \<not> rect_within (overlay_rect edge_face 800 450) 800 450"
proof -
  have b: "box_in_unit (box edge_face)
           \<and> box_x (box edge_face) + box_width (box edge_face) \<le> 1"
    by (simp add: box_in_unit_def edge_face_def round64_seven_hundredths
          below_93_hundredths_def round64_93_hundredths)
  have l: "left_pct (face_style edge_face) = 7 + 1 / 2 ^ 50"
    and w: "width_pct (face_style edge_face) = 93"
    by (simp_all add: face_style_def edge_face_def percent_seven_hundredths percent_below_93)
  have "rect_left (overlay_rect edge_face 800 450) + rect_width (overlay_rect edge_face 800 450)
          = (7 + 1 / 2 ^ 50) / 100 * 800 + 93 / 100 * 800"
    by (simp add: overlay_rect_def css_percent_def l w)
  then have "\<not> rect_within (overlay_rect edge_face 800 450) 800 450"
    by (simp add: rect_within_def)
  with b l w show ?thesis by simp
qed

section \<open>Decimal numerals: lemmas\<close>

lemma digit_val_digit_char: "d < 10 \<Longrightarrow> digit_val (digit_char d) = d"
proof -
  assume "d < 10"
  then have "d \<in> {0, 1, 2, 3, 4, 5, 6, 7, 8, 9}" by auto
  then show ?thesis
    by (auto simp: digit_val_def digit_char_def)
qed

lemma nat_of_string_snoc: "nat_of_string (xs @ [c]) = 10 * nat_of_string xs + digit_val c"
  by (simp add: nat_of_string_def)

lemma nat_of_string_of_nat: "nat_of_string (string_of_nat n) = n"
proof (induction n rule: string_of_nat.induct)
  case (1 n)
  show ?case
  proof (cases "n < 10")
    case True
    then show ?thesis
      by (simp add: string_of_nat.simps [of n] nat_of_string_def digit_val_digit_char)
  next
    case False
    then have "nat_of_string (string_of_nat n) = 10 * (n div 10) + n mod 10"
      using 1 by (simp add: string_of_nat.simps [of n] nat_of_string_snoc digit_val_digit_char)
    then show ?thesis by simp
  qed
qed

lemma string_of_nat_inj: "string_of_nat a = string_of_nat b \<Longrightarrow> a = b"
  by (metis nat_of_string_of_nat)

lemma person_id_inj: "person_id a = person_id b \<longleftrightarrow> a = b"
  by (auto simp: person_id_def dest: string_of_nat_inj)

section \<open>Frame capture: theorems\<close>




section \<open>Roster Manager: theorems\<close>

text \<open>
  C8 (amended). \<open>addPerson\<close> appends exactly one person, with the given name and image and
  the identifier \<open>person_\<close> followed by the clock reading, and writes the whole updated
  roster to storage. The new identifier differs from every identifier of the roster when
  each of them was made from another clock reading; the identifiers of the updated roster are
  distinct exactly when they were distinct before and the new one is not among them.
  \<open>removePerson\<close> keeps exactly the entries with another identifier and writes the result
  to storage. On the empty roster, adding a person gives exactly one entry of that name, and
  removing its identifier gives the empty roster again.
\<close>

theorem roster_add_remove:
  "knownPeople (addPerson now name img s)
     = knownPeople s @ [\<lparr> kp_id = person_id now, kp_name = name, kp_image = img \<rparr>]
   \<and> localStorage (addPerson now name img s) ''knownPeople''
     = Some (JSON_stringify (knownPeople (addPerson now name img s)))
   \<and> ((\<forall>p \<in> set (knownPeople s). \<exists>t. t \<noteq> now \<and> kp_id p = person_id t)
        \<longrightarrow> person_id now \<notin> set (map kp_id (knownPeople s)))
   \<and> (distinct (map kp_id (knownPeople (addPerson now name img s)))
        \<longleftrightarrow> distinct (map kp_id (knownPeople s))
            \<and> person_id now \<notin> set (map kp_id (knownPeople s)))
   \<and> knownPeople (removePerson pid s) = filter (\<lambda>p. kp_id p \<noteq> pid) (knownPeople s)
   \<and> localStorage (removePerson pid s) ''knownPeople''
     = Some (JSON_stringify (knownPeople (removePerson pid s)))
   \<and> (knownPeople s = [] \<longrightarrow>
        filter (\<lambda>p. kp_name p = name) (knownPeople (addPerson now name img s))
          = [\<lparr> kp_id = person_id now, kp_name = name, kp_image = img \<rparr>]
        \<and> knownPeople (removePerson (person_id now) (addPerson now name img s)) = [])"
proof -
  have fresh: "person_id now \<notin> set (map kp_id (knownPeople s))"
    if "\<forall>p \<in> set (knownPeople s). \<exists>t. t \<noteq> now \<and> kp_id p = person_id t"
  proof
    assume "person_id now \<in> set (map kp_id (knownPeople s))"
    then obtain p where p: "p \<in> set (knownPeople s)" "kp_id p = person_id now" by auto
    with that obtain t where "t \<noteq> now" "kp_id p = person_id t" by blast
    with p show False by (simp add: person_id_inj)
  qed
  show ?thesis
    using fresh by (auto simp: addPerson_def removePerson_def updateKnownPeople_def Let_def)
qed

theorem roster_add_remove_witness:
  "knownPeople (addPerson 5 ''Alice'' ''img'' empty_roster)
     = [\<lparr> kp_id = ''person_5'', kp_name = ''Alice'', kp_image = ''img'' \<rparr>]
   \<and> knownPeople (removePerson ''person_5'' (addPerson 5 ''Alice'' ''img'' empty_roster)) = []
   \<and> person_id 1001 \<notin> set (map kp_id (knownPeople bob_roster))"
proof -
  have p5: "person_id 5 = ''person_5''" and p1000: "person_id 1000 = ''person_1000''"
    by (simp_all add: person_id_def string_of_nat.simps digit_char_def)
  have e: "knownPeople empty_roster = []" by (simp add: empty_roster_def)
  have b: "\<forall>p \<in> set (knownPeople bob_roster). \<exists>t. t \<noteq> 1001 \<and> kp_id p = person_id t"
    using p1000 by (auto simp: bob_roster_def bob_def intro!: exI [of _ 1000])
  note a = roster_add_remove [of 5 "''Alice''" "''img''" empty_roster "''person_5''"]
  note c = roster_add_remove [of 1001 "''Carol''" "''img''" bob_roster "''person_5''"]
  from a e have "knownPeople (addPerson 5 ''Alice'' ''img'' empty_roster)
     = [\<lparr> kp_id = ''person_5'', kp_name = ''Alice'', kp_image = ''img'' \<rparr>]"
    by (simp add: p5)
  moreover from a e have
    "knownPeople (removePerson ''person_5'' (addPerson 5 ''Alice'' ''img'' empty_roster)) = []"
    by (simp add: p5)
  moreover from c b have "person_id 1001 \<notin> set (map kp_id (knownPeople bob_roster))"
    by blast
  ultimately show ?thesis by simp
qed

text \<open>
  C8 as stated fails when the clock reading repeats one already used: the identifier is made
  from \<open>Date.now()\<close> alone, so the new entry shares the identifier of an existing one, and
  removing by that identifier removes both.
\<close>

theorem roster_add_duplicate_id_counterexample:
  "kp_id (last (knownPeople (addPerson 1000 ''Alice'' ''img'' bob_roster)))
     \<in> set (map kp_id (knownPeople bob_roster))
   \<and> \<not> distinct (map kp_id (knownPeople (addPerson 1000 ''Alice'' ''img'' bob_roster)))
   \<and> knownPeople (removePerson ''person_1000'' (addPerson 1000 ''Alice'' ''img'' bob_roster)) = []"
  by (simp add: addPerson_def removePerson_def updateKnownPeople_def bob_roster_def bob_def
        person_id_def string_of_nat.simps digit_char_def Let_def)

section \<open>Batch Analyzer: the run invariant\<close>

lemma awaited_append [simp]: "awaited (ws @ [w]) = awaited ws @ (case w of Awaiting f \<Rightarrow> [f] | Finished \<Rightarrow> [])"
  by (simp add: awaited_def)

lemma awaited_Nil [simp]: "awaited [] = []"
  by (simp add: awaited_def)

lemma set_awaited: "set (awaited ws) = {f. Awaiting f \<in> set ws}"
  by (induction ws) (auto simp: awaited_def split: worker.splits)

lemma set_awaited_update_Finished:
  assumes "i < length ws" and "ws ! i = Awaiting g"
  shows "set (awaited (ws[i := Finished])) \<subseteq> set (awaited ws)"
    and "f \<in> set (awaited ws) \<Longrightarrow> f \<noteq> g \<Longrightarrow> f \<in> set (awaited (ws[i := Finished]))"
proof -
  show "set (awaited (ws[i := Finished])) \<subseteq> set (awaited ws)"
    using set_update_subset_insert [of ws i Finished] by (auto simp: set_awaited)
  assume f: "f \<in> set (awaited ws)" "f \<noteq> g"
  then obtain j where j: "j < length ws" "ws ! j = Awaiting f"
    by (auto simp: set_awaited in_set_conv_nth)
  with assms f have "j \<noteq> i" by auto
  with j have "ws[i := Finished] ! j = Awaiting f" "j < length (ws[i := Finished])" by simp_all
  then show "f \<in> set (awaited (ws[i := Finished]))"
    unfolding set_awaited by (metis mem_Collect_eq nth_mem)
qed

lemma set_awaited_update_Awaiting:
  assumes "i < length ws"
  shows "set (awaited (ws[i := Awaiting h])) = insert h (set (awaited (ws[i := Finished])))"
proof -
  have "set (ws[i := Awaiting h]) - {Awaiting h, Finished} = set (ws[i := Finished]) - {Awaiting h, Finished}"
    using assms by (auto simp: in_set_conv_nth nth_list_update split: if_splits)
  moreover have "Awaiting h \<in> set (ws[i := Awaiting h])"
    using assms by (simp add: set_update_memI)
  ultimately show ?thesis
    unfolding set_awaited by auto
qed

text \<open>The three updates of \<open>process\<close> keep every item related to its original.\<close>

lemma item_rel_mark_processing:
  assumes "list_all2 (item_rel P) items fs" and "g \<in> P'" and "P \<subseteq> P'"
  shows "list_all2 (item_rel P') items (mark_processing g fs)"
  unfolding mark_processing_def list_all2_map2
  using assms(1)
  by (rule list_all2_mono) (use assms(2,3) in \<open>auto simp: item_rel_def\<close>)

lemma item_rel_mark_done:
  assumes "list_all2 (item_rel P) items fs" and "P - {g} \<subseteq> P'"
  shows "list_all2 (item_rel P') items (mark_done g res fs)"
  unfolding mark_done_def list_all2_map2
  using assms(1)
  by (rule list_all2_mono) (use assms(2) in \<open>auto simp: item_rel_def\<close>)

lemma item_rel_mark_error:
  assumes "list_all2 (item_rel P) items fs" and "P - {g} \<subseteq> P'"
  shows "list_all2 (item_rel P') items (mark_error g fs)"
  unfolding mark_error_def list_all2_map2
  using assms(1)
  by (rule list_all2_mono) (use assms(2) in \<open>auto simp: item_rel_def\<close>)

text \<open>Starting a worker, settling a call and the join keep the invariant.\<close>

lemma batch_inv_join [simp]: "batch_inv items (join_workers s) = batch_inv items s"
  by (simp add: join_workers_def batch_inv_def pending_ids_def)

lemma batch_inv_spawn:
  assumes "batch_inv items s"
  shows "batch_inv items (spawn_worker s)"
proof (cases "queue s")
  case Nil
  with assms show ?thesis
    by (simp add: spawn_worker_def worker_loop_def batch_inv_def pending_ids_def)
next
  case (Cons f q)
  let ?s' = "spawn_worker s"
  have s': "?s' = (process_start f (s\<lparr>queue := q\<rparr>))\<lparr>workers := workers s @ [Awaiting f]\<rparr>"
    using Cons by (simp add: spawn_worker_def worker_loop_def process_start_def)
  have P: "pending_ids ?s' = pending_ids s"
    using Cons by (auto simp: s' pending_ids_def process_start_def)
  have "fs_id f \<in> pending_ids s"
    using Cons by (simp add: pending_ids_def)
  with assms have "list_all2 (item_rel (pending_ids s)) items
                     (mark_processing (fs_id f) (imageFiles s))"
    unfolding batch_inv_def by (blast intro: item_rel_mark_processing)
  moreover have "Finished \<notin> set (workers s)"
    using assms Cons by (auto simp: batch_inv_def)
  ultimately show ?thesis
    using assms Cons unfolding batch_inv_def P
    by (simp add: s' process_start_def)
qed

lemma pending_ids_deliver:
  assumes i: "i < length (workers s)" and g: "workers s ! i = Awaiting g"
    and x: "x \<in> pending_ids s" "x \<noteq> fs_id g"
  shows "queue s = [] \<Longrightarrow> x \<in> fs_id ` set (awaited ((workers s)[i := Finished]))"
    and "queue s = h # q \<Longrightarrow>
           x \<in> fs_id ` set q \<union> fs_id ` set (awaited ((workers s)[i := Awaiting h]))"
proof -
  have aw: "f \<in> set (awaited (workers s)) \<Longrightarrow> fs_id f = x \<Longrightarrow>
              f \<in> set (awaited ((workers s)[i := Finished]))" for f
    using set_awaited_update_Finished(2) [OF i g, of f] x(2) by auto
  show "x \<in> fs_id ` set (awaited ((workers s)[i := Finished]))" if "queue s = []"
    using x(1) that aw by (auto simp: pending_ids_def)
  show "x \<in> fs_id ` set q \<union> fs_id ` set (awaited ((workers s)[i := Awaiting h]))"
    if "queue s = h # q"
    using x(1) that aw by (auto simp: pending_ids_def set_awaited_update_Awaiting [OF i])
qed

lemma imageFiles_process_finish:
  assumes "list_all2 (item_rel P) items (imageFiles s)" and "P - {fs_id g} \<subseteq> P'"
  shows "list_all2 (item_rel P') items (imageFiles (process_finish g oc s))"
  using assms
  by (cases oc) (simp_all add: process_finish_def item_rel_mark_done item_rel_mark_error)

lemma batch_inv_deliver:
  assumes inv: "batch_inv items s"
  shows "batch_inv items (deliver s ev)"
proof -
  obtain i oc where ev: "ev = (i, oc)" by (cases ev)
  show ?thesis
  proof (cases "i < length (workers s)")
    case False
    with inv show ?thesis by (simp add: ev deliver_def)
  next
    case i: True
    show ?thesis
    proof (cases "workers s ! i")
      case Finished
      with inv i show ?thesis by (simp add: ev deliver_def)
    next
      case (Awaiting g)
      let ?s1 = "process_finish g oc s"
      have q1: "queue ?s1 = queue s" and w1: "workers ?s1 = workers s"
        and sub1: "submitted ?s1 = submitted s"
        by (cases oc; simp add: process_finish_def)+
      show ?thesis
      proof (cases "queue s")
        case Nil
        let ?s' = "?s1\<lparr>workers := (workers s)[i := Finished]\<rparr>"
        have d: "deliver s ev = join_workers ?s'"
          using i Awaiting Nil by (simp add: ev deliver_def worker_loop_def q1 w1)
        have "pending_ids s - {fs_id g} \<subseteq> pending_ids ?s'"
          using pending_ids_deliver(1) [OF i Awaiting _ _ Nil]
          by (auto simp: pending_ids_def q1 Nil)
        with inv have "list_all2 (item_rel (pending_ids ?s')) items (imageFiles ?s1)"
          unfolding batch_inv_def by (blast intro: imageFiles_process_finish)
        with inv Nil have "batch_inv items ?s'"
          by (simp add: batch_inv_def q1 sub1)
        then show ?thesis by (simp add: d)
      next
        case (Cons h q)
        let ?s' = "(process_start h (?s1\<lparr>queue := q\<rparr>))\<lparr>workers := (workers s)[i := Awaiting h]\<rparr>"
        have d: "deliver s ev = join_workers ?s'"
          using i Awaiting Cons
          by (simp add: ev deliver_def worker_loop_def q1 w1 process_start_def)
        have P': "pending_ids ?s' = fs_id ` set q \<union> fs_id ` set (awaited ((workers s)[i := Awaiting h]))"
          by (simp add: pending_ids_def process_start_def)
        have "pending_ids s - {fs_id g} \<subseteq> pending_ids ?s'"
          unfolding P' using pending_ids_deliver(2) [OF i Awaiting _ _ Cons] by blast
        with inv have "list_all2 (item_rel (pending_ids ?s')) items (imageFiles ?s1)"
          unfolding batch_inv_def by (blast intro: imageFiles_process_finish)
        moreover have "fs_id h \<in> pending_ids ?s'"
          unfolding P' using i by (simp add: set_awaited_update_Awaiting)
        ultimately have "list_all2 (item_rel (pending_ids ?s')) items
                           (mark_processing (fs_id h) (imageFiles ?s1))"
          by (blast intro: item_rel_mark_processing)
        moreover have "Finished \<notin> set (workers s)"
          using inv Cons by (auto simp: batch_inv_def)
        then have "Finished \<notin> set ((workers s)[i := Awaiting h])"
          using set_update_subset_insert [of "workers s" i "Awaiting h"] by auto
        moreover have "pending_ids (?s'\<lparr>imageFiles := fs\<rparr>) = pending_ids ?s'" for fs
          by (simp add: pending_ids_def process_start_def)
        ultimately have "batch_inv items ?s'"
          using inv Cons
          by (simp add: batch_inv_def process_start_def q1 sub1 pending_ids_def)
        then show ?thesis by (simp add: d)
      qed
    qed
  qed
qed

lemma batch_inv_image_loaded:
  assumes "batch_inv items s"
  shows "batch_inv items (image_loaded fid w h s)"
proof -
  have "list_all2 (item_rel P) items fs \<Longrightarrow>
          list_all2 (item_rel P) items
            (map (\<lambda>f. if fs_id f = fid
                      then f\<lparr>naturalSize := \<lparr> ns_width = w, ns_height = h \<rparr>\<rparr> else f) fs)"
    for P fs
    unfolding list_all2_map2
    by (erule list_all2_mono) (auto simp: item_rel_def)
  with assms show ?thesis
    by (simp add: batch_inv_def image_loaded_def pending_ids_def)
qed

lemma batch_inv_step:
  "batch_inv items s \<Longrightarrow> batch_inv items (batch_step s e)"
  by (cases e) (simp_all add: batch_step_def batch_inv_deliver batch_inv_image_loaded)

lemma batch_inv_run:
  "batch_inv items s \<Longrightarrow> batch_inv items (run_batch s evs)"
  unfolding run_batch_def
  by (induction evs arbitrary: s) (simp_all add: batch_inv_step)

lemma batch_inv_start: "batch_inv (imageFiles s0) (handleAnalyzeBatch s0)"
proof -
  let ?s = "s0\<lparr>isBatchLoading := True, queue := filesToProcess (imageFiles s0),
               workers := [], submitted := []\<rparr>"
  have "list_all2 (item_rel (pending_ids ?s)) (imageFiles s0) (imageFiles s0)"
    by (rule list.rel_refl_strong)
       (auto simp: item_rel_def pending_ids_def filesToProcess_def)
  then have "batch_inv (imageFiles s0) ?s"
    by (simp add: batch_inv_def)
  then have "batch_inv (imageFiles s0) (spawn_worker (spawn_worker (spawn_worker ?s)))"
    by (intro batch_inv_spawn)
  then show ?thesis
    by (simp add: handleAnalyzeBatch_def CONCURRENCY_LIMIT_def numeral_3_eq_3)
qed

lemma length_workers_deliver [simp]: "length (workers (deliver s ev)) = length (workers s)"
  by (cases ev)
     (auto simp: deliver_def worker_loop_def join_workers_def process_start_def
                 process_finish_def
           split: worker.splits list.splits outcome.splits)

lemma length_workers_step [simp]: "length (workers (batch_step s e)) = length (workers s)"
  by (cases e) (simp_all add: batch_step_def image_loaded_def)

lemma length_workers_run [simp]: "length (workers (run_batch s evs)) = length (workers s)"
  unfolding run_batch_def by (induction evs arbitrary: s) simp_all

lemma length_workers_spawn [simp]:
  "length (workers (spawn_worker s)) = Suc (length (workers s))"
  by (simp add: spawn_worker_def worker_loop_def process_start_def split: list.splits)

lemma length_workers_start: "length (workers (handleAnalyzeBatch s0)) = 3"
  by (simp add: handleAnalyzeBatch_def CONCURRENCY_LIMIT_def numeral_3_eq_3 join_workers_def)

lemma run_completed_queue:
  assumes "batch_inv items s" and "run_completed s" and "workers s \<noteq> []"
  shows "queue s = []" and "pending_ids s = {}"
proof -
  from assms(2) have all: "\<forall>w \<in> set (workers s). w = Finished"
    by (simp add: run_completed_def list_all_iff)
  with assms(3) have "Finished \<in> set (workers s)"
    by (cases "workers s") auto
  with assms(1) show q: "queue s = []" by (simp add: batch_inv_def)
  from all have "set (awaited (workers s)) = {}"
    by (auto simp: set_awaited)
  with q show "pending_ids s = {}" by (simp add: pending_ids_def)
qed

text \<open>
  Every run can complete: each settled call takes one unit off the work that is left, and
  while the run has not completed some worker is waiting for a call. So for any outcomes
  of the calls, one per item to process, there is an order of settlement that ends the run.
\<close>

lemma awaited_app: "awaited (xs @ ys) = awaited xs @ awaited ys"
  by (simp add: awaited_def)

lemma awaited_Cons: "awaited (w # ws) = (case w of Awaiting f \<Rightarrow> [f] | Finished \<Rightarrow> []) @ awaited ws"
  by (simp add: awaited_def)

lemma length_awaited_update:
  assumes "i < length ws" and "ws ! i = Awaiting g"
  shows "length (awaited (ws[i := Finished])) + 1 = length (awaited ws)"
    and "length (awaited (ws[i := Awaiting h])) = length (awaited ws)"
proof -
  have ws: "ws = take i ws @ Awaiting g # drop (Suc i) ws"
    using assms by (metis id_take_nth_drop)
  have u: "ws[i := w] = take i ws @ w # drop (Suc i) ws" for w
    using assms(1) by (rule upd_conv_take_nth_drop)
  have l: "length (awaited ws)
             = length (awaited (take i ws)) + 1 + length (awaited (drop (Suc i) ws))"
    by (subst ws) (simp add: awaited_app awaited_Cons)
  show "length (awaited (ws[i := Finished])) + 1 = length (awaited ws)"
    unfolding u l by (simp add: awaited_app awaited_Cons)
  show "length (awaited (ws[i := Awaiting h])) = length (awaited ws)"
    unfolding u l by (simp add: awaited_app awaited_Cons)
qed

lemma work_left_join [simp]: "work_left (join_workers s) = work_left s"
  by (simp add: join_workers_def work_left_def)

lemma work_left_spawn [simp]: "work_left (spawn_worker s) = work_left s"
  by (simp add: spawn_worker_def worker_loop_def process_start_def work_left_def
           split: list.splits)

lemma work_left_start:
  "work_left (handleAnalyzeBatch s0) = length (filesToProcess (imageFiles s0))"
  by (simp add: handleAnalyzeBatch_def CONCURRENCY_LIMIT_def numeral_3_eq_3)
     (simp add: work_left_def)

lemma work_left_deliver:
  assumes "i < length (workers s)" and "workers s ! i = Awaiting g"
  shows "work_left (deliver s (i, oc)) + 1 = work_left s"
proof -
  have q: "queue (process_finish g oc s) = queue s"
    and w: "workers (process_finish g oc s) = workers s"
    by (cases oc; simp add: process_finish_def)+
  show ?thesis
  proof (cases "queue s")
    case Nil
    have "deliver s (i, oc)
            = join_workers ((process_finish g oc s)\<lparr>workers := (workers s)[i := Finished]\<rparr>)"
      using assms Nil by (simp add: deliver_def worker_loop_def q w)
    then have "work_left (deliver s (i, oc))
                 = work_left ((process_finish g oc s)\<lparr>workers := (workers s)[i := Finished]\<rparr>)"
      by simp
    also have "\<dots> = length (awaited ((workers s)[i := Finished]))"
      using Nil by (simp add: work_left_def q)
    finally have "work_left (deliver s (i, oc))
                    = length (awaited ((workers s)[i := Finished]))" .
    with length_awaited_update(1) [OF assms] Nil show ?thesis
      by (simp add: work_left_def)
  next
    case (Cons h rest)
    have "deliver s (i, oc)
            = join_workers ((process_start h ((process_finish g oc s)\<lparr>queue := rest\<rparr>))
                \<lparr>workers := (workers s)[i := Awaiting h]\<rparr>)"
      using assms Cons by (simp add: deliver_def worker_loop_def q w process_start_def)
    then have "work_left (deliver s (i, oc))
                 = work_left ((process_start h ((process_finish g oc s)\<lparr>queue := rest\<rparr>))
                     \<lparr>workers := (workers s)[i := Awaiting h]\<rparr>)"
      by simp
    also have "\<dots> = length rest + length (awaited ((workers s)[i := Awaiting h]))"
      by (simp add: work_left_def process_start_def)
    finally have "work_left (deliver s (i, oc))
                    = length rest + length (awaited ((workers s)[i := Awaiting h]))" .
    with length_awaited_update(2) [OF assms, of h] Cons show ?thesis
      by (simp add: work_left_def)
  qed
qed

lemma run_completed_iff:
  assumes "batch_inv items s" and "workers s \<noteq> []"
  shows "run_completed s \<longleftrightarrow> work_left s = 0"
proof
  assume c: "run_completed s"
  from run_completed_queue [OF assms(1) c assms(2)]
  have "queue s = []" and "set (awaited (workers s)) = {}"
    by (simp_all add: pending_ids_def)
  then show "work_left s = 0" by (simp add: work_left_def)
next
  assume "work_left s = 0"
  then have "set (awaited (workers s)) = {}" by (simp add: work_left_def)
  then have "w = Finished" if "w \<in> set (workers s)" for w
    using that by (cases w) (auto simp: set_awaited)
  then show "run_completed s"
    by (simp add: run_completed_def list_all_iff)
qed

lemma not_completed_awaiting:
  assumes "\<not> run_completed s"
  shows "\<exists>i g. i < length (workers s) \<and> workers s ! i = Awaiting g"
proof -
  from assms obtain w where mem: "w \<in> set (workers s)" and nf: "w \<noteq> Finished"
    by (auto simp: run_completed_def list_all_iff)
  from nf obtain g where "w = Awaiting g" by (cases w) auto
  with mem show ?thesis by (metis in_set_conv_nth)
qed

lemma run_batch_Cons: "run_batch s (e # evs) = run_batch (batch_step s e) evs"
  by (simp add: run_batch_def)

lemma batch_drains_from:
  assumes "batch_inv items s" and "workers s \<noteq> []" and "length ocs = work_left s"
  shows "\<exists>ws. length ws = length ocs
              \<and> run_completed (run_batch s (map2 CallSettled ws ocs))"
  using assms
proof (induction ocs arbitrary: s)
  case Nil
  then have "run_completed s" by (simp add: run_completed_iff)
  then show ?case by (simp add: run_batch_def)
next
  case (Cons oc ocs)
  then have "\<not> run_completed s" by (simp add: run_completed_iff)
  then obtain i g where i: "i < length (workers s)" "workers s ! i = Awaiting g"
    using not_completed_awaiting by blast
  let ?s' = "deliver s (i, oc)"
  have "batch_inv items ?s'" using Cons.prems(1) by (rule batch_inv_deliver)
  moreover have "workers ?s' \<noteq> []"
    using Cons.prems(2) length_workers_deliver [of s "(i, oc)"] by (metis length_0_conv)
  moreover have "length ocs = work_left ?s'"
    using work_left_deliver [OF i, of oc] Cons.prems(3) by simp
  ultimately obtain ws where ws: "length ws = length ocs"
      "run_completed (run_batch ?s' (map2 CallSettled ws ocs))"
    using Cons.IH by blast
  have "run_batch s (map2 CallSettled (i # ws) (oc # ocs))
          = run_batch ?s' (map2 CallSettled ws ocs)"
    by (simp add: run_batch_Cons batch_step_def)
  with ws show ?case
    by (intro exI [of _ "i # ws"]) simp
qed

lemma batch_run_can_complete:
  assumes "length ocs = length (filesToProcess (imageFiles s0))"
  shows "\<exists>ws. length ws = length ocs
              \<and> run_completed (run_batch (handleAnalyzeBatch s0) (map2 CallSettled ws ocs))"
proof (rule batch_drains_from)
  show "batch_inv (imageFiles s0) (handleAnalyzeBatch s0)" by (rule batch_inv_start)
  show "workers (handleAnalyzeBatch s0) \<noteq> []"
    using length_workers_start [of s0] by auto
  show "length ocs = work_left (handleAnalyzeBatch s0)"
    using assms by (simp add: work_left_start)
qed

section \<open>Batch Analyzer: theorems\<close>

text \<open>
  C3. In every state of a run of \<open>handleAnalyzeBatch\<close> there are exactly 3 workers; the
  items handed to the collaborator so far, followed by the queue, are the items that were
  \<open>Pending\<close> or \<open>Error\<close> at invocation, in list order (first in, first out), so the
  submissions are a subsequence of the list and no item is submitted twice. When all workers
  have finished, the queue is empty and every item that was \<open>Pending\<close> or \<open>Error\<close> at
  invocation is \<open>Done\<close> with a result, or \<open>Error\<close>.
\<close>

theorem batch_run_drains:
  fixes s0 :: batch_state and evs :: "batch_event list"
  defines "s \<equiv> run_batch (handleAnalyzeBatch s0) evs"
  shows "length (workers s) = CONCURRENCY_LIMIT \<and> CONCURRENCY_LIMIT = 3
       \<and> submitted s @ queue s = filesToProcess (imageFiles s0)
       \<and> subseq (submitted s) (imageFiles s0)
       \<and> (run_completed s \<longrightarrow>
            queue s = []
          \<and> length (imageFiles s) = length (imageFiles s0)
          \<and> (\<forall>i < length (imageFiles s0).
                status (imageFiles s0 ! i) = Pending \<or> status (imageFiles s0 ! i) = Error \<longrightarrow>
                fs_id (imageFiles s ! i) = fs_id (imageFiles s0 ! i)
                \<and> (status (imageFiles s ! i) = Done \<and> result (imageFiles s ! i) \<noteq> None
                   \<or> status (imageFiles s ! i) = Error)))"
proof -
  have inv: "batch_inv (imageFiles s0) s"
    unfolding s_def by (intro batch_inv_run batch_inv_start)
  have len: "length (workers s) = 3"
    unfolding s_def by (simp add: length_workers_start)
  have fifo: "submitted s @ queue s = filesToProcess (imageFiles s0)"
    using inv by (simp add: batch_inv_def)
  have "subseq (submitted s) (filesToProcess (imageFiles s0))"
    unfolding fifo [symmetric] by (rule prefix_imp_subseq) simp
  also have "subseq (filesToProcess (imageFiles s0)) (imageFiles s0)"
    unfolding filesToProcess_def by (rule subseq_filter_left)
  finally have sub: "subseq (submitted s) (imageFiles s0)" .
  have rel: "list_all2 (item_rel (pending_ids s)) (imageFiles s0) (imageFiles s)"
    using inv by (simp add: batch_inv_def)
  have fin: "queue s = [] \<and> length (imageFiles s) = length (imageFiles s0)
          \<and> (\<forall>i < length (imageFiles s0).
                status (imageFiles s0 ! i) = Pending \<or> status (imageFiles s0 ! i) = Error \<longrightarrow>
                fs_id (imageFiles s ! i) = fs_id (imageFiles s0 ! i)
                \<and> (status (imageFiles s ! i) = Done \<and> result (imageFiles s ! i) \<noteq> None
                   \<or> status (imageFiles s ! i) = Error))"
    if c: "run_completed s"
  proof -
    have ne: "workers s \<noteq> []" using len by auto
    note q = run_completed_queue [OF inv c ne]
    have "fs_id (imageFiles s ! i) = fs_id (imageFiles s0 ! i)
                \<and> (status (imageFiles s ! i) = Done \<and> result (imageFiles s ! i) \<noteq> None
                   \<or> status (imageFiles s ! i) = Error)"
      if i: "i < length (imageFiles s0)"
        and st: "status (imageFiles s0 ! i) = Pending \<or> status (imageFiles s0 ! i) = Error"
      for i
    proof -
      have "item_rel {} (imageFiles s0 ! i) (imageFiles s ! i)"
        using list_all2_nthD [OF rel i] q(2) by simp
      with st show ?thesis
        by (cases "status (imageFiles s ! i)") (auto simp: item_rel_def)
    qed
    with q(1) list_all2_lengthD [OF rel] show ?thesis by simp
  qed
  show ?thesis
    using len fifo sub fin by (simp add: CONCURRENCY_LIMIT_def)
qed

theorem batch_run_drains_witness:
  "run_completed (run_batch (handleAnalyzeBatch seven_pending) seven_schedule)
   \<and> map status (imageFiles (run_batch (handleAnalyzeBatch seven_pending) seven_schedule))
       = [Done, Error, Done, Done, Done, Done, Done]
   \<and> (status (imageFiles (run_batch (handleAnalyzeBatch seven_pending) seven_schedule) ! 3) = Done
        \<and> result (imageFiles (run_batch (handleAnalyzeBatch seven_pending) seven_schedule) ! 3)
            \<noteq> None
       \<or> status (imageFiles (run_batch (handleAnalyzeBatch seven_pending) seven_schedule) ! 3)
            = Error)
   \<and> map fs_id (submitted (run_batch (handleAnalyzeBatch seven_pending) seven_schedule))
       = [''a'', ''b'', ''c'', ''d'', ''e'', ''f'', ''g'']"
proof -
  let ?s = "run_batch (handleAnalyzeBatch seven_pending) seven_schedule"
  have c: "run_completed ?s" by code_simp
  have i: "3 < length (imageFiles seven_pending)" by code_simp
  have p: "status (imageFiles seven_pending ! 3) = Pending" by code_simp
  have m: "map status (imageFiles ?s) = [Done, Error, Done, Done, Done, Done, Done]"
    by code_simp
  have f: "map fs_id (submitted ?s) = [''a'', ''b'', ''c'', ''d'', ''e'', ''f'', ''g'']"
    by code_simp
  from batch_run_drains [of seven_pending seven_schedule] c i p
  have "status (imageFiles ?s ! 3) = Done \<and> result (imageFiles ?s ! 3) \<noteq> None
        \<or> status (imageFiles ?s ! 3) = Error"
    by blast
  with c m f show ?thesis by blast
qed

text \<open>
  C4. A run submits to the collaborator only items that were \<open>Pending\<close> or \<open>Error\<close> at
  invocation, never a \<open>Done\<close> one, in list order; when the run has completed it has
  submitted exactly those items, each once. With five items \<open>Done\<close> and two \<open>Error\<close>
  that is two invocations.
\<close>

theorem batch_rerun_submits:
  fixes s0 :: batch_state and evs :: "batch_event list"
  defines "s \<equiv> run_batch (handleAnalyzeBatch s0) evs"
  shows "prefix (submitted s)
           (filter (\<lambda>f. status f = Pending \<or> status f = Error) (imageFiles s0))
       \<and> (\<forall>f \<in> set (submitted s). status f \<noteq> Done)
       \<and> (run_completed s \<longrightarrow>
            submitted s = filter (\<lambda>f. status f = Pending \<or> status f = Error) (imageFiles s0)
          \<and> length (submitted s)
              = length (filter (\<lambda>f. status f = Pending \<or> status f = Error) (imageFiles s0)))"
proof -
  have inv: "batch_inv (imageFiles s0) s"
    unfolding s_def by (intro batch_inv_run batch_inv_start)
  have fifo: "submitted s @ queue s
                = filter (\<lambda>f. status f = Pending \<or> status f = Error) (imageFiles s0)"
    using inv by (simp add: batch_inv_def filesToProcess_def)
  have p: "prefix (submitted s)
             (filter (\<lambda>f. status f = Pending \<or> status f = Error) (imageFiles s0))"
    unfolding fifo [symmetric] by simp
  have "set (submitted s)
          \<subseteq> set (filter (\<lambda>f. status f = Pending \<or> status f = Error) (imageFiles s0))"
    using p by (rule set_mono_prefix)
  then have nd: "\<forall>f \<in> set (submitted s). status f \<noteq> Done" by auto
  have "queue s = []" if "run_completed s"
  proof -
    have "length (workers s) = 3"
      unfolding s_def by (simp add: length_workers_start)
    then have "workers s \<noteq> []" by auto
    with inv that show ?thesis by (rule run_completed_queue(1))
  qed
  with fifo p nd show ?thesis by auto
qed

theorem batch_rerun_submits_witness:
  "run_completed (run_batch (handleAnalyzeBatch five_done_two_error) retry_schedule)
   \<and> length (submitted (run_batch (handleAnalyzeBatch five_done_two_error) retry_schedule)) = 2
   \<and> map fs_id (submitted (run_batch (handleAnalyzeBatch five_done_two_error) retry_schedule))
       = [''b'', ''e'']"
proof -
  let ?s = "run_batch (handleAnalyzeBatch five_done_two_error) retry_schedule"
  have c: "run_completed ?s" by code_simp
  have n: "length (filter (\<lambda>f. status f = Pending \<or> status f = Error)
                     (imageFiles five_done_two_error)) = 2"
    by code_simp
  have f: "map fs_id (filter (\<lambda>f. status f = Pending \<or> status f = Error)
                     (imageFiles five_done_two_error)) = [''b'', ''e'']"
    by code_simp
  from batch_rerun_submits [of five_done_two_error retry_schedule] c
  have "submitted ?s = filter (\<lambda>f. status f = Pending \<or> status f = Error)
                         (imageFiles five_done_two_error)"
    by blast
  with c n f show ?thesis by simp
qed

text \<open>
  C10. Choosing a non-empty selection of files sets the batch list to exactly one new item
  per chosen file, in order, each \<open>Pending\<close> with no result and natural size zero, whatever
  the list held before; the first new item is the selected one.
\<close>

theorem handleFileChange_replaces:
  assumes "fs \<noteq> []"
  shows "imageFiles (handleFileChange u (Some fs) s)
           = map (\<lambda>f. \<lparr> fs_id = file_name f @ ''-'' @ string_of_nat (lastModified f),
                        fs_file = f, url = u f, status = Pending, result = None,
                        naturalSize = \<lparr> ns_width = 0, ns_height = 0 \<rparr> \<rparr>) fs
       \<and> length (imageFiles (handleFileChange u (Some fs) s)) = length fs
       \<and> selectedImageId (handleFileChange u (Some fs) s)
           = Some (file_name (hd fs) @ ''-'' @ string_of_nat (lastModified (hd fs)))
       \<and> selectedImage (handleFileChange u (Some fs) s)
           = Some (hd (imageFiles (handleFileChange u (Some fs) s)))"
proof -
  from assms obtain f rest where fs: "fs = f # rest" by (cases fs) auto
  show ?thesis
    by (simp add: fs handleFileChange_def newFileState_def selectedImage_def Let_def)
qed

theorem handleFileChange_replaces_witness:
  "two_files \<noteq> []
   \<and> map fs_id (imageFiles (handleFileChange blob_url (Some two_files) one_done))
       = [''x.png-1700'', ''y.png-42'']
   \<and> map status (imageFiles (handleFileChange blob_url (Some two_files) one_done))
       = [Pending, Pending]
   \<and> selectedImageId (handleFileChange blob_url (Some two_files) one_done)
       = Some ''x.png-1700''"
proof -
  have ne: "two_files \<noteq> []" by (simp add: two_files_def)
  have n1: "string_of_nat 1700 = ''1700''" and n2: "string_of_nat 42 = ''42''"
    by (simp_all add: string_of_nat.simps digit_char_def)
  from handleFileChange_replaces [OF ne, of blob_url one_done] ne show ?thesis
    by (simp add: two_files_def n1 n2)
qed

section \<open>Live camera view: invariants\<close>

lemmas camera_defs =
  camera_step_def analysis_effect_def effect_cleanup_def effect_body_def clearInterval_def
  handleToggleAnalysis_def handleStartRecording_def handleStopRecording_def
  record_disabled_def analyze_disabled_def analyzeRealtimeFrame_start_def
  analyzeRealtimeFrame_resume_def

lemma camera_inv_init: "camera_inv camera_init"
  by (simp add: camera_inv_def camera_init_def)

lemma camera_inv_step:
  assumes "camera_inv s"
  shows "camera_inv (camera_step s e)"
proof (cases e)
  case StreamAcquired
  with assms show ?thesis
    by (auto simp: camera_step_def camera_inv_def split: option.splits)
next
  case (Browser v c)
  with assms show ?thesis
    by (auto simp: camera_step_def camera_inv_def split: option.splits)
next
  case PropsChanged
  with assms show ?thesis
    by (auto simp: camera_defs camera_inv_def split: option.splits)
next
  case ClickAnalyze
  with assms show ?thesis
    by (auto simp: camera_defs camera_inv_def Let_def split: option.splits)
next
  case ClickRecord
  with assms show ?thesis
    by (auto simp: camera_defs camera_inv_def split: option.splits)
next
  case RecorderStopped
  with assms show ?thesis
    by (auto simp: camera_step_def camera_inv_def split: option.splits)
next
  case (Tick i)
  with assms show ?thesis
    by (auto simp: camera_defs camera_inv_def Let_def split: option.splits)
next
  case (Settle k oc)
  with assms show ?thesis
    by (cases oc) (auto simp: camera_defs camera_inv_def Let_def split: option.splits)
qed

lemma camera_inv_run: "camera_inv s \<Longrightarrow> camera_inv (camera_run s es)"
  unfolding camera_run_def by (induction es arbitrary: s) (simp_all add: camera_inv_step)

lemma camera_run_append: "camera_run s (es1 @ es2) = camera_run (camera_run s es1) es2"
  by (simp add: camera_run_def)

lemma camera_run_Cons: "camera_run s (e # es) = camera_run (camera_step s e) es"
  by (simp add: camera_run_def)

text \<open>A tick that finds the processing flag set changes nothing.\<close>

lemma tick_skipped:
  assumes "isProcessingFrame s"
  shows "camera_step s (Tick i) = s"
  using assms by (simp add: camera_step_def analyzeRealtimeFrame_start_def)

lemma invocations_step:
  "length (invocations (camera_step s e))
     \<le> length (invocations s) + (if is_tick e then 1 else 0)"
  by (cases e)
     (auto simp: camera_defs is_tick_def Let_def split: option.splits outcome.splits)

lemma invocations_run:
  "length (invocations (camera_run s es)) \<le> length (invocations s) + tick_count es"
proof (induction es arbitrary: s)
  case Nil
  then show ?case by (simp add: camera_run_def tick_count_def)
next
  case (Cons e es)
  have "length (invocations (camera_run s (e # es)))
          \<le> length (invocations (camera_step s e)) + tick_count es"
    unfolding camera_run_Cons by (rule Cons.IH)
  also have "\<dots> \<le> length (invocations s) + (if is_tick e then 1 else 0) + tick_count es"
    using invocations_step [of s e] by simp
  also have "\<dots> = length (invocations s) + tick_count (e # es)"
    by (simp add: tick_count_def)
  finally show ?case .
qed

text \<open>
  With analysis off, no event other than a click on Analyze changes what is displayed,
  starts a timer, captures a frame or calls the collaborator.
\<close>

lemma analysis_off_step:
  assumes "analysis_off s" and "e \<noteq> ClickAnalyze"
  shows "analysis_off (camera_step s e)"
    and "invocations (camera_step s e) = invocations s"
    and "captures (camera_step s e) = captures s"
  using assms
  by (cases e; auto simp: camera_defs analysis_off_def ref_truthy_def
        split: option.splits outcome.splits)+

lemma analysis_off_run:
  assumes "analysis_off s" and "ClickAnalyze \<notin> set es"
  shows "analysis_off (camera_run s es) \<and> invocations (camera_run s es) = invocations s
         \<and> captures (camera_run s es) = captures s"
  using assms
proof (induction es arbitrary: s)
  case Nil
  then show ?case by (simp add: camera_run_def)
next
  case (Cons e es)
  then have e: "e \<noteq> ClickAnalyze" and es: "ClickAnalyze \<notin> set es" by auto
  note st = analysis_off_step [OF Cons.prems(1) e]
  from Cons.IH [OF st(1) es] st(2,3) show ?case
    by (simp add: camera_run_Cons)
qed

lemma stop_turns_off:
  assumes "camera_inv s" and "isAnalyzing s"
  shows "analysis_off (camera_step s ClickAnalyze)"
    and "invocations (camera_step s ClickAnalyze) = invocations s"
    and "captures (camera_step s ClickAnalyze) = captures s"
  using assms
  by (auto simp: camera_defs camera_inv_def analysis_off_def Let_def split: option.splits)

section \<open>Live camera view: theorems\<close>

text \<open>
  C1. After any sequence of events at most one recognition call is pending. A tick that
  fires while a call is pending leaves the whole state as it is: no capture, no call,
  nothing queued. Hence a sequence of events in which some tick fires while a call is
  pending has fewer collaborator invocations than ticks: with three ticks, at most two.
\<close>

theorem live_loop_single_flight:
  "length (in_flight (camera_run camera_init es)) \<le> 1
   \<and> (in_flight (camera_run camera_init es) \<noteq> [] \<longrightarrow>
        camera_step (camera_run camera_init es) (Tick i) = camera_run camera_init es)
   \<and> (in_flight (camera_run camera_init es) \<noteq> [] \<longrightarrow>
        length (invocations (camera_run camera_init (es @ Tick i # es'))) + 1
          \<le> tick_count (es @ Tick i # es'))"
proof -
  let ?s = "camera_run camera_init es"
  have inv: "camera_inv ?s"
    by (intro camera_inv_run camera_inv_init)
  then have one: "length (in_flight ?s) \<le> 1"
    by (simp add: camera_inv_def)
  have skip: "camera_step ?s (Tick i) = ?s" if "in_flight ?s \<noteq> []"
  proof -
    from inv that have "isProcessingFrame ?s"
      by (auto simp: camera_inv_def split: if_splits)
    then show ?thesis by (rule tick_skipped)
  qed
  have count: "length (invocations (camera_run camera_init (es @ Tick i # es'))) + 1
                 \<le> tick_count (es @ Tick i # es')"
    if "in_flight ?s \<noteq> []"
  proof -
    have "camera_run camera_init (es @ Tick i # es') = camera_run ?s es'"
      by (simp add: camera_run_append camera_run_Cons skip [OF that])
    moreover have "length (invocations (camera_run ?s es'))
                     \<le> length (invocations ?s) + tick_count es'"
      by (rule invocations_run)
    moreover have "length (invocations ?s) \<le> tick_count es"
      using invocations_run [of camera_init es] by (simp add: camera_init_def)
    moreover have "tick_count (es @ Tick i # es') = tick_count es + 1 + tick_count es'"
      by (simp add: tick_count_def is_tick_def)
    ultimately show ?thesis by simp
  qed
  from one skip count show ?thesis by blast
qed

theorem live_loop_single_flight_witness:
  "in_flight (camera_run camera_init (analysis_started @ [Tick 1])) \<noteq> []
   \<and> captures (camera_run camera_init (analysis_started @ [Tick 1, Tick 1])) = 1
   \<and> tick_count ((analysis_started @ [Tick 1]) @ Tick 1 # slow_call_rest) = 3
   \<and> length (invocations
        (camera_run camera_init ((analysis_started @ [Tick 1]) @ Tick 1 # slow_call_rest))) = 2
   \<and> length (invocations
        (camera_run camera_init ((analysis_started @ [Tick 1]) @ Tick 1 # slow_call_rest))) + 1
       \<le> 3"
proof -
  let ?es = "analysis_started @ [Tick 1]"
  have f: "in_flight (camera_run camera_init ?es) \<noteq> []" by code_simp
  have c: "captures (camera_run camera_init (analysis_started @ [Tick 1, Tick 1])) = 1"
    by code_simp
  have t: "tick_count (?es @ Tick 1 # slow_call_rest) = 3" by code_simp
  have n: "length (invocations (camera_run camera_init (?es @ Tick 1 # slow_call_rest))) = 2"
    by code_simp
  from live_loop_single_flight [of ?es 1 slow_call_rest] f
  have "length (invocations (camera_run camera_init (?es @ Tick 1 # slow_call_rest))) + 1
          \<le> tick_count (?es @ Tick 1 # slow_call_rest)"
    by blast
  with f c t n show ?thesis by simp
qed

text \<open>
  C2. Let analysis be on after the events \<open>es\<close>, and let a click on Analyze follow. Then
  after any further events \<open>es'\<close> without a click on Analyze (ticks, settling calls, prop
  changes, recording) the displayed faces are empty and the person count is 0, no timer is
  active and a tick changes nothing, and no frame was captured and no collaborator call was
  made since the click. If no tick fired before the click, no call was made at all.
\<close>

theorem stop_clears_display:
  fixes es es' :: "event list"
  defines "s0 \<equiv> camera_run camera_init es"
  defines "s \<equiv> camera_run (camera_step (camera_run camera_init es) ClickAnalyze) es'"
  assumes "isAnalyzing s0" and "ClickAnalyze \<notin> set es'"
  shows "detectedFaces s = [] \<and> personCount s = 0
       \<and> \<not> isAnalyzing s \<and> analysisIntervalRef s = None \<and> timers s = []
       \<and> camera_step s (Tick i) = s
       \<and> invocations s = invocations s0 \<and> captures s = captures s0
       \<and> (tick_count es = 0 \<longrightarrow> invocations s = [])"
proof -
  have inv: "camera_inv s0"
    unfolding s0_def by (intro camera_inv_run camera_inv_init)
  note off = stop_turns_off [OF inv assms(3)]
  from analysis_off_run [OF off(1) assms(4)] off(2,3)
  have s: "analysis_off s" "invocations s = invocations s0" "captures s = captures s0"
    unfolding s_def s0_def by simp_all
  have "length (invocations s0) \<le> tick_count es"
    unfolding s0_def using invocations_run [of camera_init es] by (simp add: camera_init_def)
  then have "tick_count es = 0 \<longrightarrow> invocations s0 = []" by auto
  with s show ?thesis
    by (simp add: analysis_off_def camera_step_def)
qed

theorem stop_clears_display_witness:
  "isAnalyzing (camera_run camera_init (analysis_started @ [Tick 1]))
   \<and> ClickAnalyze \<notin> set after_stop
   \<and> in_flight (camera_step (camera_run camera_init (analysis_started @ [Tick 1])) ClickAnalyze)
       \<noteq> []
   \<and> detectedFaces (camera_run
        (camera_step (camera_run camera_init (analysis_started @ [Tick 1])) ClickAnalyze)
        after_stop) = []
   \<and> isAnalyzing (camera_run camera_init analysis_started)
   \<and> tick_count analysis_started = 0
   \<and> invocations (camera_run
        (camera_step (camera_run camera_init analysis_started) ClickAnalyze) after_stop) = []"
proof -
  have a: "isAnalyzing (camera_run camera_init (analysis_started @ [Tick 1]))" by code_simp
  have b: "ClickAnalyze \<notin> set after_stop" by code_simp
  have c: "in_flight (camera_step (camera_run camera_init (analysis_started @ [Tick 1]))
             ClickAnalyze) \<noteq> []" by code_simp
  have d: "isAnalyzing (camera_run camera_init analysis_started)" by code_simp
  have e: "tick_count analysis_started = 0" by code_simp
  from stop_clears_display [OF a b]
  have "detectedFaces (camera_run
          (camera_step (camera_run camera_init (analysis_started @ [Tick 1])) ClickAnalyze)
          after_stop) = []"
    by blast
  moreover from stop_clears_display [OF d b] e
  have "invocations (camera_run
          (camera_step (camera_run camera_init analysis_started) ClickAnalyze) after_stop) = []"
    by blast
  ultimately show ?thesis using a b c d e by blast
qed

text \<open>
  C9. After any sequence of events, recording and analysis are not both on. In any state
  with analysis on, a click on Record does nothing; in any state with recording on, a click
  on Analyze does nothing.
\<close>

theorem recording_analysis_exclusive:
  "\<not> (isRecording (camera_run camera_init es) \<and> isAnalyzing (camera_run camera_init es))
   \<and> (isAnalyzing s \<longrightarrow> camera_step s ClickRecord = s)
   \<and> (isRecording s \<longrightarrow> camera_step s ClickAnalyze = s)"
proof -
  have "camera_inv (camera_run camera_init es)"
    by (intro camera_inv_run camera_inv_init)
  then have "\<not> (isRecording (camera_run camera_init es) \<and> isAnalyzing (camera_run camera_init es))"
    by (simp add: camera_inv_def)
  then show ?thesis
    by (simp add: camera_step_def record_disabled_def analyze_disabled_def)
qed

theorem recording_analysis_exclusive_witness:
  "isAnalyzing (camera_run camera_init [StreamAcquired, ClickAnalyze])
   \<and> camera_step (camera_run camera_init [StreamAcquired, ClickAnalyze]) ClickRecord
       = camera_run camera_init [StreamAcquired, ClickAnalyze]
   \<and> isRecording (camera_run camera_init [StreamAcquired, ClickRecord])
   \<and> camera_step (camera_run camera_init [StreamAcquired, ClickRecord]) ClickAnalyze
       = camera_run camera_init [StreamAcquired, ClickRecord]"
proof -
  have a: "isAnalyzing (camera_run camera_init [StreamAcquired, ClickAnalyze])" by code_simp
  have r: "isRecording (camera_run camera_init [StreamAcquired, ClickRecord])" by code_simp
  from recording_analysis_exclusive
         [of "[]" "camera_run camera_init [StreamAcquired, ClickAnalyze]"] a
  have 1: "camera_step (camera_run camera_init [StreamAcquired, ClickAnalyze]) ClickRecord
       = camera_run camera_init [StreamAcquired, ClickAnalyze]"
    by blast
  from recording_analysis_exclusive
         [of "[]" "camera_run camera_init [StreamAcquired, ClickRecord]"] r
  have 2: "camera_step (camera_run camera_init [StreamAcquired, ClickRecord]) ClickAnalyze
       = camera_run camera_init [StreamAcquired, ClickRecord]"
    by blast
  from a r 1 2 show ?thesis by blast
qed

end
